theory Spec2Isabelle
  imports Main "HOL-Library.Multiset"
begin

section \<open>JavaScript values and arrays\<close>

text \<open>
  The hooks store whatever the transport delivers. A payload is a JSON value; the hooks
  look at it in two places only: the truthiness test \<^verbatim>\<open>if (d)\<close> of the loading effect and
  the operator \<^verbatim>\<open>||\<close> that picks a fallback message. Numbers are integers here (a JSON
  payload has no NaN), and the counter \<^verbatim>\<open>retries\<close> is a natural number (the source's
  number is a double, exact below \<open>2 ^ 53\<close>).
\<close>

datatype jsval =
    JUndefined
  | JNull
  | JBool bool
  | JNum int
  | JStr string
  | JObj "(string \<times> jsval) list"

fun truthy :: "jsval \<Rightarrow> bool" where
  "truthy JUndefined = False"
| "truthy JNull = False"
| "truthy (JBool b) = b"
| "truthy (JNum n) = (n \<noteq> 0)"
| "truthy (JStr s) = (s \<noteq> [])"
| "truthy (JObj fs) = True"

definition js_or :: "jsval \<Rightarrow> jsval \<Rightarrow> jsval" where
  "js_or a b = (if truthy a then a else b)"

fun js_prop :: "jsval \<Rightarrow> string \<Rightarrow> jsval" where
  "js_prop (JObj fs) k = (case map_of fs k of None \<Rightarrow> JUndefined | Some v \<Rightarrow> v)"
| "js_prop v k = JUndefined"

text \<open>
  \<^verbatim>\<open>const copy = [...prev]; copy[index] = v\<close>: inside the array the element is replaced;
  at or beyond its end the array grows, and the positions in between read as the hole
  value (\<^verbatim>\<open>undefined\<close>). Reading beyond the end gives the hole value too.
\<close>

definition js_assign :: "'a \<Rightarrow> 'a list \<Rightarrow> nat \<Rightarrow> 'a \<Rightarrow> 'a list" where
  "js_assign hole xs i v =
     (if i < length xs then xs[i := v]
      else xs @ replicate (i - length xs) hole @ [v])"

definition js_get :: "'a \<Rightarrow> 'a list \<Rightarrow> nat \<Rightarrow> 'a" where
  "js_get hole xs i = (if i < length xs then xs ! i else hole)"

section \<open>The transport's outcomes\<close>

record axios_response =
  resp_data :: jsval
  resp_status :: int

record axios_error =
  err_message :: string
  err_cancel :: bool
  err_response :: "axios_response option"

datatype 'a promise_result = Fulfilled 'a | Rejected axios_error

type_synonym outcome = "axios_response promise_result"

text \<open>
  What the transport rejects with once the request's signal has been aborted: its
  cancellation error, for which \<^verbatim>\<open>isCancel\<close> holds.
\<close>

definition canceled_error :: axios_error where
  "canceled_error = \<lparr>err_message = ''canceled'', err_cancel = True, err_response = None\<rparr>"

section \<open>useFetchMultiple: state and handlers\<close>

record fm_state =
  data :: "jsval list"
  errors :: "jsval list"
  error :: string
  responses :: "axios_response option list"
  loadingIndex :: "bool option list"
  retries :: nat

definition fm_initial :: "nat \<Rightarrow> fm_state" where
  "fm_initial n =
     \<lparr>data = [], errors = [], error = [], responses = [],
      loadingIndex = replicate n (Some True), retries = 0\<rparr>"

text \<open>The \<^verbatim>\<open>.then\<close> of one request of the bulk cycle.\<close>

definition on_then :: "nat \<Rightarrow> axios_response \<Rightarrow> fm_state \<Rightarrow> fm_state" where
  "on_then index response s =
     s\<lparr>data := js_assign JUndefined (data s) index (resp_data response),
       responses := js_assign None (responses s) index (Some response)\<rparr>"

text \<open>The \<^verbatim>\<open>.catch\<close> of one request of the bulk cycle. It does not ask \<^verbatim>\<open>isCancel\<close>.\<close>

definition on_catch :: "nat \<Rightarrow> axios_error \<Rightarrow> fm_state \<Rightarrow> fm_state" where
  "on_catch index err s =
     s\<lparr>errors := js_assign JUndefined (errors s) index
                  (js_or (JStr (err_message err)) (JStr ''Something went wrong''))\<rparr>"

text \<open>
  The effect on \<^verbatim>\<open>[data]\<close>: for every truthy entry, in index order, one functional update
  of \<^verbatim>\<open>loadingIndex\<close>.
\<close>

definition mark_loaded :: "jsval list \<Rightarrow> nat \<Rightarrow> bool option list \<Rightarrow> bool option list" where
  "mark_loaded d i li = (if truthy (d ! i) then js_assign None li i (Some False) else li)"

definition loading_effect :: "fm_state \<Rightarrow> fm_state" where
  "loading_effect s =
     s\<lparr>loadingIndex := fold (mark_loaded (data s)) [0..<length (data s)] (loadingIndex s)\<rparr>"

definition setData :: "jsval list \<Rightarrow> fm_state \<Rightarrow> fm_state" where
  "setData v s = s\<lparr>data := v\<rparr>"

definition refetch :: "fm_state \<Rightarrow> fm_state" where
  "refetch s = s\<lparr>retries := retries s + 1\<rparr>"

definition refetchIndex_then :: "nat \<Rightarrow> axios_response \<Rightarrow> fm_state \<Rightarrow> fm_state" where
  "refetchIndex_then index res s =
     s\<lparr>data := js_assign JUndefined (data s) index (resp_data res),
       responses := js_assign None (responses s) index (Some res)\<rparr>"

definition error_title :: "axios_error \<Rightarrow> jsval" where
  "error_title err =
     (case err_response err of None \<Rightarrow> JUndefined | Some r \<Rightarrow> js_prop (resp_data r) ''title'')"

definition refetchIndex_catch :: "nat \<Rightarrow> axios_error \<Rightarrow> fm_state \<Rightarrow> fm_state" where
  "refetchIndex_catch index err s =
     s\<lparr>errors := js_assign JUndefined (errors s) index
                  (js_or (error_title err) (JStr ''Something went wrong''))\<rparr>"

section \<open>useFetchMultiple: the hook over time\<close>

text \<open>
  One request promise of the bulk cycle is \<^verbatim>\<open>axios.get(...).then(...).catch(...)\<close>: whatever
  the transport does, one of the two handlers runs and the promise is fulfilled. A state
  change of \<^verbatim>\<open>data\<close> is followed by the effect on \<^verbatim>\<open>[data]\<close>; a change of \<^verbatim>\<open>errors\<close>
  alone is not.
\<close>

definition request_chain :: "nat \<Rightarrow> outcome \<Rightarrow> fm_state \<Rightarrow> unit promise_result \<times> fm_state" where
  "request_chain index out s =
     (case out of
        Fulfilled response \<Rightarrow> (Fulfilled (), loading_effect (on_then index response s))
      | Rejected err \<Rightarrow> (Fulfilled (), on_catch index err s))"

definition allSettled :: "'a promise_result list \<Rightarrow> 'a promise_result list promise_result" where
  "allSettled rs = Fulfilled rs"

text \<open>The end of \<^verbatim>\<open>fetchData\<close>: the \<^verbatim>\<open>await\<close> inside \<^verbatim>\<open>try\<close>, and the outer \<^verbatim>\<open>catch\<close>.\<close>

definition fetchData_finish :: "unit promise_result list \<Rightarrow> fm_state \<Rightarrow> fm_state" where
  "fetchData_finish requests s =
     (case allSettled requests of
        Fulfilled _ \<Rightarrow> s
      | Rejected err \<Rightarrow>
          if err_cancel err then s
          else s\<lparr>error := (if err_message err \<noteq> [] then err_message err
                            else ''Something went wrong'')\<rparr>)"

definition refetchIndex_settle :: "nat \<Rightarrow> outcome \<Rightarrow> fm_state \<Rightarrow> fm_state" where
  "refetchIndex_settle index out s =
     (case out of
        Fulfilled res \<Rightarrow> loading_effect (refetchIndex_then index res s)
      | Rejected err \<Rightarrow> refetchIndex_catch index err s)"

text \<open>
  A request in flight: the run of the fetch effect that issued it (its generation), its
  index, and whether its controller has been aborted. A request started by
  \<^verbatim>\<open>refetchIndex\<close> has no controller; only its index is kept.
\<close>

record attempt =
  a_gen :: nat
  a_index :: nat
  a_aborted :: bool

record fm_system =
  hook :: fm_state
  urls_len :: nat
  epoch :: nat
  inflight :: "attempt list"
  chains :: "(nat \<times> unit promise_result) list"
  inflight_index :: "nat list"

text \<open>
  The events in the life of the hook: the caller calls \<^verbatim>\<open>refetch()\<close>; a dependency
  changes; the caller calls \<^verbatim>\<open>setData(v)\<close>; request \<open>i\<close> of run \<open>g\<close> settles with what the
  transport delivers; the caller calls \<^verbatim>\<open>refetchIndex(i)\<close>; a request started by
  \<^verbatim>\<open>refetchIndex(i)\<close> settles; the component unmounts. The TypeScript and the JavaScript
  file of the hook have the same statements, except that the \<^verbatim>\<open>.catch\<close> of
  \<^verbatim>\<open>refetchIndex\<close> reads the title through optional chaining in TypeScript; the
  definitions follow the TypeScript file. An index is a natural number. After the
  unmount the handlers of late requests still call the setters; the state below is what
  they are called with.
\<close>

datatype fm_event =
    Refetch
  | DepsChange
  | SetData "jsval list"
  | Settle nat nat outcome
  | RefetchIndex nat
  | SettleIndex nat outcome
  | Unmount

text \<open>The cleanup of the fetch effect: \<^verbatim>\<open>controllers.forEach(c => c.abort())\<close>.\<close>

definition cleanup :: "fm_system \<Rightarrow> fm_system" where
  "cleanup sys =
     sys\<lparr>inflight := map (\<lambda>a. if a_gen a = epoch sys then a\<lparr>a_aborted := True\<rparr> else a)
                         (inflight sys)\<rparr>"

text \<open>
  One run of the fetch effect, numbered \<open>g\<close>: a controller and a request per url. With
  no url, \<^verbatim>\<open>Promise.allSettled([])\<close> is settled at once.
\<close>

definition start_fetch :: "nat \<Rightarrow> fm_system \<Rightarrow> fm_system" where
  "start_fetch g sys =
     sys\<lparr>epoch := g,
         inflight := inflight sys @
            map (\<lambda>i. \<lparr>a_gen = g, a_index = i, a_aborted = False\<rparr>) [0..<urls_len sys],
         hook := (if urls_len sys = 0 then fetchData_finish [] (hook sys) else hook sys)\<rparr>"

definition rerun_effect :: "fm_system \<Rightarrow> fm_system" where
  "rerun_effect sys = start_fetch (epoch sys + 1) (cleanup sys)"

definition fm_mount :: "nat \<Rightarrow> fm_system" where
  "fm_mount n =
     start_fetch 0
       \<lparr>hook = fm_initial n, urls_len = n, epoch = 0, inflight = [], chains = [],
        inflight_index = []\<rparr>"

definition is_attempt :: "nat \<Rightarrow> nat \<Rightarrow> attempt \<Rightarrow> bool" where
  "is_attempt g i a = (a_gen a = g \<and> a_index a = i)"

text \<open>
  The request \<open>(g, i)\<close> settles. The transport's outcome counts unless the controller was
  aborted before: then the transport rejects with its cancellation error. When it was
  the last request of run \<open>g\<close>, that run's \<^verbatim>\<open>fetchData\<close> finishes.
\<close>

definition settle :: "nat \<Rightarrow> nat \<Rightarrow> outcome \<Rightarrow> fm_system \<Rightarrow> fm_system" where
  "settle g i out sys =
     (case find (is_attempt g i) (inflight sys) of
        None \<Rightarrow> sys
      | Some a \<Rightarrow>
          let out' = (if a_aborted a then Rejected canceled_error else out);
              r = request_chain i out' (hook sys);
              rest = filter (\<lambda>b. \<not> is_attempt g i b) (inflight sys);
              settled = (g, fst r) # chains sys;
              h = (if list_all (\<lambda>b. a_gen b \<noteq> g) rest
                   then fetchData_finish (map snd (filter (\<lambda>c. fst c = g) settled)) (snd r)
                   else snd r)
          in sys\<lparr>hook := h, inflight := rest, chains := settled\<rparr>)"

definition settle_index :: "nat \<Rightarrow> outcome \<Rightarrow> fm_system \<Rightarrow> fm_system" where
  "settle_index i out sys =
     (if i \<in> set (inflight_index sys)
      then sys\<lparr>hook := refetchIndex_settle i out (hook sys),
               inflight_index := remove1 i (inflight_index sys)\<rparr>
      else sys)"

fun fm_step :: "fm_event \<Rightarrow> fm_system \<Rightarrow> fm_system" where
  "fm_step Refetch sys = rerun_effect (sys\<lparr>hook := refetch (hook sys)\<rparr>)"
| "fm_step DepsChange sys = rerun_effect sys"
| "fm_step (SetData v) sys = sys\<lparr>hook := loading_effect (setData v (hook sys))\<rparr>"
| "fm_step (Settle g i out) sys = settle g i out sys"
| "fm_step (RefetchIndex i) sys = sys\<lparr>inflight_index := i # inflight_index sys\<rparr>"
| "fm_step (SettleIndex i out) sys = settle_index i out sys"
| "fm_step Unmount sys = cleanup sys"

definition fm_run :: "fm_event list \<Rightarrow> fm_system \<Rightarrow> fm_system" where
  "fm_run evs sys = fold fm_step evs sys"

section \<open>useFetch: state, handlers, and the hook over time\<close>

text \<open>
  The TypeScript and the JavaScript file of useFetch have the same statements. The state
  \<^verbatim>\<open>response\<close> holds \<^verbatim>\<open>null\<close>, a response, or the error object the \<^verbatim>\<open>.catch\<close> stores.
\<close>

datatype stored_response = NoResponse | Response axios_response | ErrorObject axios_error

record sf_state =
  isLoading :: bool
  sf_data :: jsval
  sf_error :: string
  response :: stored_response
  sf_retries :: nat

definition sf_initial :: sf_state where
  "sf_initial =
     \<lparr>isLoading = True, sf_data = JNull, sf_error = [], response = NoResponse, sf_retries = 0\<rparr>"

text \<open>The two updates at the head of \<^verbatim>\<open>fetchData\<close>, before the request is issued.\<close>

definition sf_fetch_start :: "sf_state \<Rightarrow> sf_state" where
  "sf_fetch_start s = s\<lparr>isLoading := True, sf_error := []\<rparr>"

definition sf_then :: "axios_response \<Rightarrow> sf_state \<Rightarrow> sf_state" where
  "sf_then res s = s\<lparr>sf_data := resp_data res, response := Response res, isLoading := False\<rparr>"

text \<open>The \<^verbatim>\<open>.catch\<close>: it returns early when \<^verbatim>\<open>isCancel(err)\<close> is false.\<close>

definition sf_catch :: "axios_error \<Rightarrow> sf_state \<Rightarrow> sf_state" where
  "sf_catch err s =
     (if \<not> err_cancel err then s
      else s\<lparr>sf_error := (if err_message err \<noteq> [] then err_message err
                          else ''Something went wrong''),
             isLoading := False,
             response := ErrorObject err\<rparr>)"

definition sf_setData :: "jsval \<Rightarrow> sf_state \<Rightarrow> sf_state" where
  "sf_setData v s = s\<lparr>sf_data := v\<rparr>"

definition sf_refetch :: "sf_state \<Rightarrow> sf_state" where
  "sf_refetch s = s\<lparr>sf_retries := sf_retries s + 1\<rparr>"

record sf_system =
  sf_hook :: sf_state
  sf_epoch :: nat
  sf_inflight :: "(nat \<times> bool) list"

datatype sf_event =
    SfRefetch
  | SfDepsChange
  | SfSetData jsval
  | SfSettle nat outcome
  | SfUnmount

definition sf_cleanup :: "sf_system \<Rightarrow> sf_system" where
  "sf_cleanup sys =
     sys\<lparr>sf_inflight := map (\<lambda>(g, ab). if g = sf_epoch sys then (g, True) else (g, ab))
                            (sf_inflight sys)\<rparr>"

definition sf_start :: "nat \<Rightarrow> sf_system \<Rightarrow> sf_system" where
  "sf_start g sys =
     sys\<lparr>sf_epoch := g,
         sf_hook := sf_fetch_start (sf_hook sys),
         sf_inflight := sf_inflight sys @ [(g, False)]\<rparr>"

definition sf_rerun_effect :: "sf_system \<Rightarrow> sf_system" where
  "sf_rerun_effect sys = sf_start (sf_epoch sys + 1) (sf_cleanup sys)"

definition sf_mount :: sf_system where
  "sf_mount = sf_start 0 \<lparr>sf_hook = sf_initial, sf_epoch = 0, sf_inflight = []\<rparr>"

definition sf_settle :: "nat \<Rightarrow> outcome \<Rightarrow> sf_system \<Rightarrow> sf_system" where
  "sf_settle g out sys =
     (case map_of (sf_inflight sys) g of
        None \<Rightarrow> sys
      | Some aborted \<Rightarrow>
          let out' = (if aborted then Rejected canceled_error else out);
              h = (case out' of
                     Fulfilled res \<Rightarrow> sf_then res (sf_hook sys)
                   | Rejected err \<Rightarrow> sf_catch err (sf_hook sys))
          in sys\<lparr>sf_hook := h, sf_inflight := filter (\<lambda>p. fst p \<noteq> g) (sf_inflight sys)\<rparr>)"

fun sf_step :: "sf_event \<Rightarrow> sf_system \<Rightarrow> sf_system" where
  "sf_step SfRefetch sys = sf_rerun_effect (sys\<lparr>sf_hook := sf_refetch (sf_hook sys)\<rparr>)"
| "sf_step SfDepsChange sys = sf_rerun_effect sys"
| "sf_step (SfSetData v) sys = sys\<lparr>sf_hook := sf_setData v (sf_hook sys)\<rparr>"
| "sf_step (SfSettle g out) sys = sf_settle g out sys"
| "sf_step SfUnmount sys = sf_cleanup sys"

definition sf_run :: "sf_event list \<Rightarrow> sf_system \<Rightarrow> sf_system" where
  "sf_run evs sys = fold sf_step evs sys"

section \<open>Notions used by the properties\<close>

text \<open>
  Every truthy entry of \<^verbatim>\<open>data\<close> has had its loading flag cleared: what one run of the
  effect on \<^verbatim>\<open>[data]\<close> establishes.
\<close>

definition li_inv :: "fm_state \<Rightarrow> bool" where
  "li_inv s = (\<forall>k < length (data s). truthy (data s ! k) \<longrightarrow>
                  k < length (loadingIndex s) \<and> loadingIndex s ! k = Some False)"

text \<open>The events that put a truthy value into \<^verbatim>\<open>data[i]\<close>, at the latest when they settle.\<close>

fun fills :: "nat \<Rightarrow> fm_event \<Rightarrow> bool" where
  "fills i (SetData v) = truthy (js_get JUndefined v i)"
| "fills i (Settle g j (Fulfilled r)) = (j = i \<and> truthy (resp_data r))"
| "fills i (SettleIndex j (Fulfilled r)) = (j = i \<and> truthy (resp_data r))"
| "fills i e = False"

text \<open>The requests of run \<open>g\<close> settling in the order of the list, each with its outcome.\<close>

definition cycle :: "nat \<Rightarrow> (nat \<times> outcome) list \<Rightarrow> fm_event list" where
  "cycle g outs = map (\<lambda>(i, out). Settle g i out) outs"

text \<open>One settled request of a cycle, as a change of the hook's state.\<close>

definition apply_outcome :: "nat \<times> outcome \<Rightarrow> fm_state \<Rightarrow> fm_state" where
  "apply_outcome p s = snd (request_chain (fst p) (snd p) s)"

text \<open>What the \<^verbatim>\<open>.catch\<close> of a bulk request stores: \<^verbatim>\<open>error.message || 'Something went wrong'\<close>.\<close>

definition failure_message :: "axios_error \<Rightarrow> jsval" where
  "failure_message err = js_or (JStr (err_message err)) (JStr ''Something went wrong'')"

fun is_failure :: "outcome \<Rightarrow> bool" where
  "is_failure (Fulfilled r) = False"
| "is_failure (Rejected e) = True"

fun payload_defined :: "outcome \<Rightarrow> bool" where
  "payload_defined (Fulfilled r) = (resp_data r \<noteq> JUndefined)"
| "payload_defined (Rejected e) = True"

text \<open>No request in flight belongs to a run of the fetch effect later than the current one.\<close>

definition gen_inv :: "fm_system \<Rightarrow> bool" where
  "gen_inv sys = list_all (\<lambda>a. a_gen a \<le> epoch sys) (inflight sys)"

text \<open>Sample outcomes for the concrete runs below.\<close>

definition timeout_error :: axios_error where
  "timeout_error = \<lparr>err_message = ''timeout'', err_cancel = False, err_response = None\<rparr>"

definition ok_response :: "jsval \<Rightarrow> axios_response" where
  "ok_response v = \<lparr>resp_data = v, resp_status = 200\<rparr>"

definition scenario_abc :: "(nat \<times> outcome) list" where
  "scenario_abc =
     [(0, Fulfilled (ok_response (JObj [(''id'', JNum 1)]))),
      (1, Rejected timeout_error),
      (2, Fulfilled (ok_response (JObj [(''id'', JNum 3)])))]"

section \<open>Arrays and the loading effect\<close>


lemma length_js_assign: "length (js_assign h xs i v) = max (length xs) (Suc i)"
  by (simp add: js_assign_def)

lemma js_get_js_assign: "js_get h (js_assign h xs i v) k = (if k = i then v else js_get h xs k)"
  by (auto simp: js_assign_def js_get_def nth_append)

lemma nth_js_assign:
  "k < max (length xs) (Suc i) \<Longrightarrow>
   js_assign h xs i v ! k = (if k = i then v else if k < length xs then xs ! k else h)"
  by (auto simp: js_assign_def nth_append)

lemma js_assign_commute:
  "i \<noteq> j \<Longrightarrow> js_assign h (js_assign h xs i a) j b = js_assign h (js_assign h xs j b) i a"
  by (rule nth_equalityI) (auto simp: length_js_assign nth_js_assign)

lemma js_assign_noop: "i < length xs \<Longrightarrow> xs ! i = v \<Longrightarrow> js_assign h xs i v = xs"
  by (auto simp: js_assign_def)

lemma js_assign_idem: "js_assign h (js_assign h xs i v) i v = js_assign h xs i v"
  by (rule js_assign_noop) (auto simp: length_js_assign nth_js_assign)

lemma fold_mark_loaded_get:
  "js_get None (fold (mark_loaded d) ks li) k =
     (if k \<in> set ks \<and> truthy (d ! k) then Some False else js_get None li k)"
  by (induction ks arbitrary: li) (auto simp: mark_loaded_def js_get_js_assign)

lemma loading_effect_get:
  "js_get None (loadingIndex (loading_effect s)) k =
     (if truthy (js_get JUndefined (data s) k) then Some False
      else js_get None (loadingIndex s) k)"
proof -
  have "(k \<in> set [0..<length (data s)] \<and> truthy (data s ! k)) = truthy (js_get JUndefined (data s) k)"
    by (simp add: js_get_def)
  then show ?thesis
    by (simp add: loading_effect_def fold_mark_loaded_get)
qed

lemma fold_mark_loaded_one:
  "\<forall>k\<in>set ks. truthy (d ! k) \<longrightarrow> k = i \<or> (k < length li \<and> li ! k = Some False) \<Longrightarrow>
   fold (mark_loaded d) ks li =
     (if i \<in> set ks \<and> truthy (d ! i) then js_assign None li i (Some False) else li)"
proof (induction ks arbitrary: li)
  case Nil
  then show ?case by simp
next
  case (Cons k ks)
  show ?case
  proof (cases "truthy (d ! k)")
    case False
    then have "fold (mark_loaded d) (k # ks) li = fold (mark_loaded d) ks li"
      by (simp add: mark_loaded_def)
    with Cons False show ?thesis by auto
  next
    case True
    show ?thesis
    proof (cases "k = i")
      case False
      with True Cons.prems have "k < length li" "li ! k = Some False" by auto
      then have "mark_loaded d k li = li"
        by (simp add: mark_loaded_def js_assign_noop)
      with Cons False show ?thesis by auto
    next
      case ki: True
      let ?li = "js_assign None li i (Some False)"
      have step: "mark_loaded d k li = ?li"
        using True ki by (simp add: mark_loaded_def)
      have "\<forall>k\<in>set ks. truthy (d ! k) \<longrightarrow> k = i \<or> (k < length ?li \<and> ?li ! k = Some False)"
        using Cons.prems by (auto simp: length_js_assign nth_js_assign)
      then have "fold (mark_loaded d) ks ?li =
          (if i \<in> set ks \<and> truthy (d ! i) then js_assign None ?li i (Some False) else ?li)"
        by (rule Cons.IH)
      then show ?thesis
        using True ki step by (simp add: js_assign_idem)
    qed
  qed
qed

lemma loading_effect_after_assign:
  assumes "li_inv s"
  shows "loading_effect (s\<lparr>data := js_assign JUndefined (data s) i v\<rparr>) =
         s\<lparr>data := js_assign JUndefined (data s) i v,
           loadingIndex := (if truthy v then js_assign None (loadingIndex s) i (Some False)
                            else loadingIndex s)\<rparr>"
proof -
  let ?d = "js_assign JUndefined (data s) i v"
  have "\<forall>k\<in>set [0..<length ?d]. truthy (?d ! k) \<longrightarrow>
          k = i \<or> (k < length (loadingIndex s) \<and> loadingIndex s ! k = Some False)"
    using assms by (auto simp: li_inv_def length_js_assign nth_js_assign split: if_splits)
  then have "fold (mark_loaded ?d) [0..<length ?d] (loadingIndex s) =
      (if i \<in> set [0..<length ?d] \<and> truthy (?d ! i)
       then js_assign None (loadingIndex s) i (Some False) else loadingIndex s)"
    by (rule fold_mark_loaded_one)
  moreover have "i < length ?d" "?d ! i = v"
    by (auto simp: length_js_assign nth_js_assign)
  ultimately show ?thesis
    by (simp add: loading_effect_def)
qed

lemma li_inv_loading_effect: "li_inv (loading_effect s)"
  unfolding li_inv_def
proof (intro allI impI)
  fix k assume k: "k < length (data (loading_effect s))" and t: "truthy (data (loading_effect s) ! k)"
  have d: "data (loading_effect s) = data s" by (simp add: loading_effect_def)
  have "truthy (js_get JUndefined (data s) k)"
    using k t d by (simp add: js_get_def)
  then have "js_get None (loadingIndex (loading_effect s)) k = Some False"
    by (simp add: loading_effect_get)
  then show "k < length (loadingIndex (loading_effect s)) \<and> loadingIndex (loading_effect s) ! k = Some False"
    by (auto simp: js_get_def split: if_splits)
qed

section \<open>What one event changes\<close>


lemma fetchData_finish_id: "fetchData_finish rs s = s"
  by (simp add: fetchData_finish_def allSettled_def)

lemma request_chain_fulfilled: "fst (request_chain i out s) = Fulfilled ()"
  by (simp add: request_chain_def split: promise_result.split)

lemma hook_settle:
  "hook (settle g i out sys) =
     (case find (is_attempt g i) (inflight sys) of
        None \<Rightarrow> hook sys
      | Some a \<Rightarrow> snd (request_chain i (if a_aborted a then Rejected canceled_error else out)
                         (hook sys)))"
  by (simp add: settle_def Let_def fetchData_finish_id split: option.split)

lemma hook_rerun_effect: "hook (rerun_effect sys) = hook sys"
  by (simp add: rerun_effect_def start_fetch_def cleanup_def fetchData_finish_id)

lemma hook_cleanup: "hook (cleanup sys) = hook sys"
  by (simp add: cleanup_def)

lemma hook_settle_index:
  "hook (settle_index i out sys) =
     (if i \<in> set (inflight_index sys) then refetchIndex_settle i out (hook sys) else hook sys)"
  by (simp add: settle_index_def)

lemma loading_effect_frame:
  "data (loading_effect s) = data s" "errors (loading_effect s) = errors s"
  "error (loading_effect s) = error s" "responses (loading_effect s) = responses s"
  "retries (loading_effect s) = retries s"
  by (simp_all add: loading_effect_def)

lemma request_chain_frame:
  "error (snd (request_chain i out s)) = error s"
  "retries (snd (request_chain i out s)) = retries s"
  by (simp_all add: request_chain_def on_then_def on_catch_def loading_effect_frame
      split: promise_result.split)

lemma refetchIndex_settle_frame:
  "error (refetchIndex_settle i out s) = error s"
  "retries (refetchIndex_settle i out s) = retries s"
  by (simp_all add: refetchIndex_settle_def refetchIndex_then_def refetchIndex_catch_def
      loading_effect_frame split: promise_result.split)

lemma fm_step_error: "error (hook (fm_step e sys)) = error (hook sys)"
  by (cases e)
     (simp_all add: hook_settle hook_rerun_effect hook_cleanup hook_settle_index
        request_chain_frame refetchIndex_settle_frame loading_effect_frame
        refetch_def setData_def split: option.split)

lemma fm_run_error: "error (hook (fm_run evs sys)) = error (hook sys)"
  unfolding fm_run_def by (induction evs arbitrary: sys) (simp_all add: fm_step_error)

lemma fm_step_retries:
  "retries (hook (fm_step e sys)) = retries (hook sys) + (if e = Refetch then 1 else 0)"
  by (cases e)
     (simp_all add: hook_settle hook_rerun_effect hook_cleanup hook_settle_index
        request_chain_frame refetchIndex_settle_frame loading_effect_frame
        refetch_def setData_def split: option.split)

lemma fm_run_retries:
  "retries (hook (fm_run evs sys)) = retries (hook sys) + count_list evs Refetch"
  unfolding fm_run_def
  by (induction evs arbitrary: sys) (simp_all add: fm_step_retries)

lemma sf_hook_rerun: "sf_hook (sf_rerun_effect sys) = sf_fetch_start (sf_hook sys)"
  by (simp add: sf_rerun_effect_def sf_start_def sf_cleanup_def)

lemma sf_step_retries:
  "sf_retries (sf_hook (sf_step e sys)) = sf_retries (sf_hook sys) + (if e = SfRefetch then 1 else 0)"
  by (cases e)
     (simp_all add: sf_hook_rerun sf_fetch_start_def sf_refetch_def sf_setData_def
        sf_settle_def sf_cleanup_def sf_then_def sf_catch_def Let_def
        split: option.split promise_result.split)

lemma sf_run_retries:
  "sf_retries (sf_hook (sf_run evs sys)) = sf_retries (sf_hook sys) + count_list evs SfRefetch"
  unfolding sf_run_def
  by (induction evs arbitrary: sys) (simp_all add: sf_step_retries)

section \<open>The loading flags over reachable states\<close>


lemma li_inv_errors_update: "li_inv (s\<lparr>errors := es\<rparr>) = li_inv s"
  by (simp add: li_inv_def)

lemma li_inv_retries_update: "li_inv (s\<lparr>retries := r\<rparr>) = li_inv s"
  by (simp add: li_inv_def)

lemma li_inv_request_chain: "li_inv s \<Longrightarrow> li_inv (snd (request_chain i out s))"
  by (simp add: request_chain_def on_catch_def li_inv_errors_update li_inv_loading_effect
      split: promise_result.split)

lemma li_inv_refetchIndex_settle: "li_inv s \<Longrightarrow> li_inv (refetchIndex_settle i out s)"
  by (simp add: refetchIndex_settle_def refetchIndex_catch_def li_inv_errors_update
      li_inv_loading_effect split: promise_result.split)

lemma li_inv_step: "li_inv (hook sys) \<Longrightarrow> li_inv (hook (fm_step e sys))"
  by (cases e)
     (simp_all add: hook_settle hook_rerun_effect hook_cleanup hook_settle_index
        li_inv_request_chain li_inv_refetchIndex_settle li_inv_loading_effect
        refetch_def li_inv_retries_update split: option.split)

lemma li_inv_run: "li_inv (hook sys) \<Longrightarrow> li_inv (hook (fm_run evs sys))"
  unfolding fm_run_def by (induction evs arbitrary: sys) (simp_all add: li_inv_step)

lemma li_inv_mount: "li_inv (hook (fm_mount n))"
  by (simp add: fm_mount_def start_fetch_def fm_initial_def fetchData_finish_id li_inv_def)

lemma li_inv_reachable: "li_inv (hook (fm_run evs (fm_mount n)))"
  by (simp add: li_inv_run li_inv_mount)

lemma li_inv_get:
  "li_inv s \<Longrightarrow> truthy (js_get JUndefined (data s) k) \<Longrightarrow> js_get None (loadingIndex s) k = Some False"
  by (auto simp: li_inv_def js_get_def split: if_splits)

lemma request_chain_loading_get:
  "js_get None (loadingIndex (snd (request_chain j out s))) i =
     (case out of
        Fulfilled r \<Rightarrow>
          if truthy (js_get JUndefined (data (snd (request_chain j out s))) i) then Some False
          else js_get None (loadingIndex s) i
      | Rejected e \<Rightarrow> js_get None (loadingIndex s) i)"
  by (simp add: request_chain_def loading_effect_get loading_effect_frame on_then_def on_catch_def
      split: promise_result.split)

lemma request_chain_data_get:
  "js_get JUndefined (data (snd (request_chain j out s))) i =
     (case out of
        Fulfilled r \<Rightarrow> if i = j then resp_data r else js_get JUndefined (data s) i
      | Rejected e \<Rightarrow> js_get JUndefined (data s) i)"
  by (simp add: request_chain_def loading_effect_frame on_then_def on_catch_def js_get_js_assign
      split: promise_result.split)

lemma refetchIndex_settle_loading_get:
  "js_get None (loadingIndex (refetchIndex_settle j out s)) i =
     (case out of
        Fulfilled r \<Rightarrow>
          if truthy (js_get JUndefined (data (refetchIndex_settle j out s)) i) then Some False
          else js_get None (loadingIndex s) i
      | Rejected e \<Rightarrow> js_get None (loadingIndex s) i)"
  by (simp add: refetchIndex_settle_def loading_effect_get loading_effect_frame
      refetchIndex_then_def refetchIndex_catch_def split: promise_result.split)

lemma refetchIndex_settle_data_get:
  "js_get JUndefined (data (refetchIndex_settle j out s)) i =
     (case out of
        Fulfilled r \<Rightarrow> if i = j then resp_data r else js_get JUndefined (data s) i
      | Rejected e \<Rightarrow> js_get JUndefined (data s) i)"
  by (simp add: refetchIndex_settle_def loading_effect_frame refetchIndex_then_def
      refetchIndex_catch_def js_get_js_assign split: promise_result.split)

lemma step_loading_cases:
  "js_get None (loadingIndex (hook (fm_step e sys))) i = js_get None (loadingIndex (hook sys)) i \<or>
   (js_get None (loadingIndex (hook (fm_step e sys))) i = Some False \<and>
    truthy (js_get JUndefined (data (hook (fm_step e sys))) i))"
proof (cases e)
  case (Settle g j out)
  then show ?thesis
    by (simp add: hook_settle request_chain_loading_get canceled_error_def
        split: option.split promise_result.split)
next
  case (SettleIndex j out)
  then show ?thesis
    by (simp add: hook_settle_index refetchIndex_settle_loading_get split: promise_result.split)
next
  case (SetData v)
  then show ?thesis
    by (simp add: loading_effect_get loading_effect_frame setData_def)
qed (simp_all add: hook_rerun_effect hook_cleanup refetch_def)

lemma step_keeps_falsy:
  assumes "\<not> fills i e" and "\<not> truthy (js_get JUndefined (data (hook sys)) i)"
  shows "\<not> truthy (js_get JUndefined (data (hook (fm_step e sys))) i)"
proof (cases e)
  case (Settle g j out)
  with assms show ?thesis
    by (cases out)
       (auto simp: hook_settle request_chain_data_get split: option.split)
next
  case (SettleIndex j out)
  with assms show ?thesis
    by (cases out) (auto simp: hook_settle_index refetchIndex_settle_data_get)
next
  case (SetData v)
  with assms show ?thesis
    by (simp add: loading_effect_frame setData_def)
qed (use assms in \<open>simp_all add: hook_rerun_effect hook_cleanup refetch_def\<close>)

lemma run_keeps_loading:
  assumes "\<forall>e\<in>set evs. \<not> fills i e" and "\<not> truthy (js_get JUndefined (data (hook sys)) i)"
  shows "\<not> truthy (js_get JUndefined (data (hook (fm_run evs sys))) i) \<and>
         js_get None (loadingIndex (hook (fm_run evs sys))) i = js_get None (loadingIndex (hook sys)) i"
  using assms
proof (induction evs arbitrary: sys)
  case Nil
  then show ?case by (simp add: fm_run_def)
next
  case (Cons e evs)
  have f: "\<not> truthy (js_get JUndefined (data (hook (fm_step e sys))) i)"
    using Cons.prems by (simp add: step_keeps_falsy)
  then have l: "js_get None (loadingIndex (hook (fm_step e sys))) i = js_get None (loadingIndex (hook sys)) i"
    using step_loading_cases [of e sys i] by blast
  have "\<not> truthy (js_get JUndefined (data (hook (fm_run evs (fm_step e sys)))) i) \<and>
        js_get None (loadingIndex (hook (fm_run evs (fm_step e sys)))) i =
        js_get None (loadingIndex (hook (fm_step e sys))) i"
    using Cons.prems f by (intro Cons.IH) simp_all
  with l show ?case by (simp add: fm_run_def)
qed

lemma mount_slot_loading:
  "i < n \<Longrightarrow> js_get None (loadingIndex (hook (fm_mount n))) i = Some True"
  by (simp add: fm_mount_def start_fetch_def fm_initial_def fetchData_finish_id js_get_def)

lemma mount_slot_data: "\<not> truthy (js_get JUndefined (data (hook (fm_mount n))) i)"
  by (simp add: fm_mount_def start_fetch_def fm_initial_def fetchData_finish_id js_get_def)


section \<open>A settled request under the invariant\<close>

lemma li_inv_responses_update: "li_inv (s\<lparr>responses := rs\<rparr>) = li_inv s"
  by (simp add: li_inv_def)

lemma loading_effect_responses_update:
  "loading_effect (s\<lparr>responses := rs\<rparr>) = (loading_effect s)\<lparr>responses := rs\<rparr>"
  by (simp add: loading_effect_def)

lemma loading_effect_after_then:
  assumes "li_inv s"
  shows "loading_effect (on_then i r s) =
         s\<lparr>data := js_assign JUndefined (data s) i (resp_data r),
           responses := js_assign None (responses s) i (Some r),
           loadingIndex := (if truthy (resp_data r)
                            then js_assign None (loadingIndex s) i (Some False)
                            else loadingIndex s)\<rparr>"
proof -
  have "on_then i r s =
      (s\<lparr>data := js_assign JUndefined (data s) i (resp_data r)\<rparr>)
        \<lparr>responses := js_assign None (responses s) i (Some r)\<rparr>"
    by (simp add: on_then_def)
  then show ?thesis
    using loading_effect_after_assign [OF assms, of i "resp_data r"]
    by (simp add: loading_effect_responses_update)
qed

lemma refetchIndex_then_eq: "refetchIndex_then i r s = on_then i r s"
  by (simp add: refetchIndex_then_def on_then_def)

section \<open>The order of completion\<close>

lemma apply_outcome_rejected:
  "apply_outcome (i, Rejected e) s =
     s\<lparr>errors := js_assign JUndefined (errors s) i (failure_message e)\<rparr>"
  by (simp add: apply_outcome_def request_chain_def on_catch_def failure_message_def)

lemma apply_outcome_fulfilled:
  "li_inv s \<Longrightarrow>
   apply_outcome (i, Fulfilled r) s =
     s\<lparr>data := js_assign JUndefined (data s) i (resp_data r),
       responses := js_assign None (responses s) i (Some r),
       loadingIndex := (if truthy (resp_data r)
                        then js_assign None (loadingIndex s) i (Some False)
                        else loadingIndex s)\<rparr>"
  by (simp add: apply_outcome_def request_chain_def loading_effect_after_then)

lemma li_inv_apply_outcome: "li_inv s \<Longrightarrow> li_inv (apply_outcome p s)"
  by (simp add: apply_outcome_def li_inv_request_chain)

lemma apply_outcome_commute:
  assumes "li_inv s" and "fst p \<noteq> fst q"
  shows "apply_outcome p (apply_outcome q s) = apply_outcome q (apply_outcome p s)"
proof -
  obtain i a j b where p: "p = (i, a)" and q: "q = (j, b)"
    by (cases p, cases q) auto
  have ij: "i \<noteq> j" using assms(2) p q by simp
  note sw = js_assign_commute [OF ij]
  have lp: "li_inv (apply_outcome (i, a) s)" and lq: "li_inv (apply_outcome (j, b) s)"
    using assms(1) by (simp_all add: li_inv_apply_outcome)
  show ?thesis
  proof (cases a)
    case fa: (Fulfilled r)
    show ?thesis
    proof (cases b)
      case fb: (Fulfilled r')
      have "li_inv (apply_outcome (i, Fulfilled r) s)" "li_inv (apply_outcome (j, Fulfilled r') s)"
        using lp lq fa fb by simp_all
      then show ?thesis
        using assms(1) unfolding p q fa fb
        by (simp add: apply_outcome_fulfilled sw)
    next
      case rb: (Rejected e')
      have "li_inv (apply_outcome (j, Rejected e') s)"
        using lq rb by simp
      then show ?thesis
        using assms(1) unfolding p q fa rb
        by (simp add: apply_outcome_fulfilled) (simp add: apply_outcome_rejected)
    qed
  next
    case ra: (Rejected e)
    show ?thesis
    proof (cases b)
      case fb: (Fulfilled r')
      have "li_inv (apply_outcome (i, Rejected e) s)"
        using lp ra by simp
      then show ?thesis
        using assms(1) unfolding p q ra fb
        by (simp add: apply_outcome_fulfilled) (simp add: apply_outcome_rejected)
    next
      case rb: (Rejected e')
      show ?thesis
        unfolding p q ra rb by (simp add: apply_outcome_rejected sw)
    qed
  qed
qed

lemma fold_apply_outcome_permuted:
  assumes "li_inv s" and "distinct (map fst outs)" and "mset outs' = mset outs"
  shows "fold apply_outcome outs' s = fold apply_outcome outs s"
proof (rule fold_permuted_eq [where P = li_inv])
  show "mset outs' = mset outs" by fact
  show "li_inv s" by fact
  show "li_inv (apply_outcome x z)" if "li_inv z" for x z
    using that by (rule li_inv_apply_outcome)
  show "apply_outcome x (apply_outcome y z) = apply_outcome y (apply_outcome x z)"
    if "x \<in> set outs'" "y \<in> set outs'" "li_inv z" for x y z
  proof (cases "x = y")
    case True
    then show ?thesis by simp
  next
    case False
    have "x \<in> set outs" "y \<in> set outs"
      using that(1,2) assms(3) by (metis mset_eq_setD)+
    with False assms(2) have "fst x \<noteq> fst y"
      by (meson distinct_map inj_on_def)
    with that(3) show ?thesis
      by (rule apply_outcome_commute)
  qed
qed


subsection \<open>A cycle of the hook is the fold of its outcomes\<close>

lemma inflight_settle:
  "inflight (settle g i out sys) = filter (\<lambda>b. \<not> is_attempt g i b) (inflight sys)"
proof (cases "find (is_attempt g i) (inflight sys)")
  case None
  then have "\<forall>b\<in>set (inflight sys). \<not> is_attempt g i b"
    by (simp add: find_None_iff)
  then have "filter (\<lambda>b. \<not> is_attempt g i b) (inflight sys) = inflight sys"
    by simp
  with None show ?thesis by (simp add: settle_def)
next
  case (Some a)
  then show ?thesis by (simp add: settle_def Let_def)
qed

lemma hook_settle_pending:
  assumes "a \<in> set (inflight sys)" and "is_attempt g i a"
    and "\<forall>b\<in>set (inflight sys). a_gen b = g \<longrightarrow> \<not> a_aborted b"
  shows "hook (settle g i out sys) = apply_outcome (i, out) (hook sys)"
proof -
  obtain b where b: "find (is_attempt g i) (inflight sys) = Some b"
    using assms(1,2) by (cases "find (is_attempt g i) (inflight sys)") (auto simp: find_None_iff)
  then have "b \<in> set (inflight sys)" "is_attempt g i b"
    by (auto simp: find_Some_iff)
  with assms(3) have "\<not> a_aborted b"
    by (simp add: is_attempt_def)
  with b show ?thesis
    by (simp add: hook_settle apply_outcome_def)
qed

lemma hook_run_cycle:
  assumes "distinct (map fst outs)"
    and "\<forall>i\<in>fst ` set outs. \<exists>a\<in>set (inflight sys). is_attempt g i a"
    and "\<forall>b\<in>set (inflight sys). a_gen b = g \<longrightarrow> \<not> a_aborted b"
  shows "hook (fm_run (cycle g outs) sys) = fold apply_outcome outs (hook sys)"
  using assms
proof (induction outs arbitrary: sys)
  case Nil
  then show ?case by (simp add: fm_run_def cycle_def)
next
  case (Cons p outs)
  obtain i out where p: "p = (i, out)" by (cases p)
  let ?sys = "settle g i out sys"
  obtain a where a: "a \<in> set (inflight sys)" "is_attempt g i a"
    using Cons.prems(2) p by auto
  have h: "hook ?sys = apply_outcome (i, out) (hook sys)"
    using a Cons.prems(3) by (rule hook_settle_pending)
  have d: "distinct (map fst outs)" and ni: "i \<notin> fst ` set outs"
    using Cons.prems(1) p by auto
  have "\<exists>b\<in>set (inflight ?sys). is_attempt g j b" if "j \<in> fst ` set outs" for j
  proof -
    from that Cons.prems(2) obtain b where b: "b \<in> set (inflight sys)" "is_attempt g j b"
      by auto
    from that ni have "j \<noteq> i" by auto
    with b have "\<not> is_attempt g i b" by (simp add: is_attempt_def)
    with b show ?thesis by (auto simp: inflight_settle)
  qed
  moreover have "\<forall>b\<in>set (inflight ?sys). a_gen b = g \<longrightarrow> \<not> a_aborted b"
    using Cons.prems(3) by (simp add: inflight_settle)
  ultimately have "hook (fm_run (cycle g outs) ?sys) = fold apply_outcome outs (hook ?sys)"
    using d by (intro Cons.IH) auto
  then show ?case
    using h p by (simp add: fm_run_def cycle_def)
qed

subsection \<open>Where a cycle starts\<close>

lemma urls_len_step: "urls_len (fm_step e sys) = urls_len sys"
  by (cases e)
     (simp_all add: rerun_effect_def start_fetch_def cleanup_def settle_def settle_index_def
        Let_def split: option.split)

lemma urls_len_reachable: "urls_len (fm_run evs (fm_mount n)) = n"
proof -
  have "urls_len (fm_run evs sys) = urls_len sys" for sys
    unfolding fm_run_def by (induction evs arbitrary: sys) (simp_all add: urls_len_step)
  then show ?thesis
    by (simp add: fm_mount_def start_fetch_def)
qed

lemma epoch_settle: "epoch (settle g i out sys) = epoch sys"
  by (simp add: settle_def Let_def split: option.split)

lemma gen_inv_rerun: "gen_inv sys \<Longrightarrow> gen_inv (rerun_effect sys)"
  by (auto simp: gen_inv_def rerun_effect_def start_fetch_def cleanup_def list_all_iff)

lemma gen_inv_cleanup: "gen_inv sys \<Longrightarrow> gen_inv (cleanup sys)"
  by (auto simp: gen_inv_def cleanup_def list_all_iff)

lemma gen_inv_step:
  assumes "gen_inv sys"
  shows "gen_inv (fm_step e sys)"
proof (cases e)
  case Refetch
  from assms have "gen_inv (sys\<lparr>hook := refetch (hook sys)\<rparr>)" by (simp add: gen_inv_def)
  then show ?thesis using Refetch by (simp add: gen_inv_rerun)
next
  case DepsChange
  with assms show ?thesis by (simp add: gen_inv_rerun)
next
  case (SetData v)
  with assms show ?thesis by (simp add: gen_inv_def)
next
  case (Settle g i out)
  with assms show ?thesis
    by (simp add: gen_inv_def inflight_settle epoch_settle list_all_iff)
next
  case (RefetchIndex i)
  with assms show ?thesis by (simp add: gen_inv_def)
next
  case (SettleIndex i out)
  with assms show ?thesis by (simp add: gen_inv_def settle_index_def)
next
  case Unmount
  with assms show ?thesis by (simp add: gen_inv_cleanup)
qed

lemma gen_inv_reachable: "gen_inv (fm_run evs (fm_mount n))"
proof -
  have "gen_inv sys \<Longrightarrow> gen_inv (fm_run evs sys)" for sys
    unfolding fm_run_def by (induction evs arbitrary: sys) (simp_all add: gen_inv_step)
  moreover have "gen_inv (fm_mount n)"
    by (simp add: gen_inv_def fm_mount_def start_fetch_def list_all_iff)
  ultimately show ?thesis by simp
qed

lemma rerun_ready:
  assumes "gen_inv sys"
  shows "\<forall>i<urls_len sys. \<exists>a\<in>set (inflight (rerun_effect sys)).
            is_attempt (epoch (rerun_effect sys)) i a"
    and "\<forall>b\<in>set (inflight (rerun_effect sys)).
            a_gen b = epoch (rerun_effect sys) \<longrightarrow> \<not> a_aborted b"
proof -
  show "\<forall>i<urls_len sys. \<exists>a\<in>set (inflight (rerun_effect sys)).
            is_attempt (epoch (rerun_effect sys)) i a"
    by (auto simp: rerun_effect_def start_fetch_def cleanup_def is_attempt_def image_iff
        intro!: bexI [where x = "\<lparr>a_gen = epoch sys + 1, a_index = i, a_aborted = False\<rparr>" for i])
  have "a_gen b \<le> epoch sys" if "b \<in> set (inflight sys)" for b
    using assms that by (simp add: gen_inv_def list_all_iff)
  then show "\<forall>b\<in>set (inflight (rerun_effect sys)).
            a_gen b = epoch (rerun_effect sys) \<longrightarrow> \<not> a_aborted b"
    by (fastforce simp: rerun_effect_def start_fetch_def cleanup_def)
qed

lemma mount_ready:
  "\<forall>i<n. \<exists>a\<in>set (inflight (fm_mount n)). is_attempt (epoch (fm_mount n)) i a"
  "\<forall>b\<in>set (inflight (fm_mount n)). a_gen b = epoch (fm_mount n) \<longrightarrow> \<not> a_aborted b"
  by (auto simp: fm_mount_def start_fetch_def is_attempt_def image_iff)

subsection \<open>The slots after a cycle\<close>

lemma apply_outcome_errors_get:
  "js_get JUndefined (errors (apply_outcome (j, out) s)) i =
     (case out of
        Fulfilled r \<Rightarrow> js_get JUndefined (errors s) i
      | Rejected e \<Rightarrow> if i = j then failure_message e else js_get JUndefined (errors s) i)"
  by (simp add: apply_outcome_def request_chain_def on_then_def on_catch_def loading_effect_frame
      failure_message_def js_get_js_assign split: promise_result.split)

lemma apply_outcome_data_get:
  "js_get JUndefined (data (apply_outcome (j, out) s)) i =
     (case out of
        Fulfilled r \<Rightarrow> if i = j then resp_data r else js_get JUndefined (data s) i
      | Rejected e \<Rightarrow> js_get JUndefined (data s) i)"
  by (simp add: apply_outcome_def request_chain_data_get)

lemma apply_outcome_responses_get:
  "js_get None (responses (apply_outcome (j, out) s)) i =
     (case out of
        Fulfilled r \<Rightarrow> if i = j then Some r else js_get None (responses s) i
      | Rejected e \<Rightarrow> js_get None (responses s) i)"
  by (simp add: apply_outcome_def request_chain_def on_then_def on_catch_def loading_effect_frame
      js_get_js_assign split: promise_result.split)

lemma fold_errors_get:
  "distinct (map fst outs) \<Longrightarrow>
   js_get JUndefined (errors (fold apply_outcome outs s)) i =
     (case map_of outs i of
        Some (Rejected e) \<Rightarrow> failure_message e
      | _ \<Rightarrow> js_get JUndefined (errors s) i)"
proof (induction outs arbitrary: s)
  case Nil
  then show ?case by simp
next
  case (Cons p outs)
  obtain j out where p: "p = (j, out)" by (cases p)
  from Cons.prems p have d: "distinct (map fst outs)" and nj: "map_of outs j = None"
    by (auto simp: map_of_eq_None_iff)
  show ?case
  proof (cases "i = j")
    case True
    with nj Cons.IH [OF d, of "apply_outcome (j, out) s"] show ?thesis
      by (simp add: p apply_outcome_errors_get split: promise_result.split)
  next
    case False
    then have "js_get JUndefined (errors (apply_outcome (j, out) s)) i = js_get JUndefined (errors s) i"
      by (simp add: apply_outcome_errors_get split: promise_result.split)
    with False Cons.IH [OF d, of "apply_outcome (j, out) s"] show ?thesis
      by (simp add: p split: option.split promise_result.split)
  qed
qed

lemma fold_data_get:
  "distinct (map fst outs) \<Longrightarrow>
   js_get JUndefined (data (fold apply_outcome outs s)) i =
     (case map_of outs i of
        Some (Fulfilled r) \<Rightarrow> resp_data r
      | _ \<Rightarrow> js_get JUndefined (data s) i)"
proof (induction outs arbitrary: s)
  case Nil
  then show ?case by simp
next
  case (Cons p outs)
  obtain j out where p: "p = (j, out)" by (cases p)
  from Cons.prems p have d: "distinct (map fst outs)" and nj: "map_of outs j = None"
    by (auto simp: map_of_eq_None_iff)
  show ?case
  proof (cases "i = j")
    case True
    with nj Cons.IH [OF d, of "apply_outcome (j, out) s"] show ?thesis
      by (simp add: p apply_outcome_data_get split: promise_result.split)
  next
    case False
    then have "js_get JUndefined (data (apply_outcome (j, out) s)) i = js_get JUndefined (data s) i"
      by (simp add: apply_outcome_data_get split: promise_result.split)
    with False Cons.IH [OF d, of "apply_outcome (j, out) s"] show ?thesis
      by (simp add: p split: option.split promise_result.split)
  qed
qed

lemma fold_responses_get:
  "distinct (map fst outs) \<Longrightarrow>
   js_get None (responses (fold apply_outcome outs s)) i =
     (case map_of outs i of
        Some (Fulfilled r) \<Rightarrow> Some r
      | _ \<Rightarrow> js_get None (responses s) i)"
proof (induction outs arbitrary: s)
  case Nil
  then show ?case by simp
next
  case (Cons p outs)
  obtain j out where p: "p = (j, out)" by (cases p)
  from Cons.prems p have d: "distinct (map fst outs)" and nj: "map_of outs j = None"
    by (auto simp: map_of_eq_None_iff)
  show ?case
  proof (cases "i = j")
    case True
    with nj Cons.IH [OF d, of "apply_outcome (j, out) s"] show ?thesis
      by (simp add: p apply_outcome_responses_get split: promise_result.split)
  next
    case False
    then have "js_get None (responses (apply_outcome (j, out) s)) i = js_get None (responses s) i"
      by (simp add: apply_outcome_responses_get split: promise_result.split)
    with False Cons.IH [OF d, of "apply_outcome (j, out) s"] show ?thesis
      by (simp add: p split: option.split promise_result.split)
  qed
qed

lemma js_get_Nil: "js_get h [] i = h"
  by (simp add: js_get_def)

lemma truthy_failure_message: "truthy (failure_message e)"
  by (simp add: failure_message_def js_or_def)

lemma card_fst_filter:
  assumes "distinct (map fst outs)"
  shows "card (fst ` set (filter P outs)) = length (filter P outs)"
proof -
  have "distinct (map fst (filter P outs))"
    using assms by (rule distinct_map_filter)
  then have "card (set (map fst (filter P outs))) = length (map fst (filter P outs))"
    by (rule distinct_card)
  then show ?thesis by simp
qed

lemma failed_indices:
  assumes "distinct (map fst outs)"
  shows "{i. \<exists>e. map_of outs i = Some (Rejected e)} = fst ` set (filter (\<lambda>p. is_failure (snd p)) outs)"
proof (intro set_eqI iffI)
  fix i assume "i \<in> {i. \<exists>e. map_of outs i = Some (Rejected e)}"
  then obtain e where "map_of outs i = Some (Rejected e)" by auto
  then have "(i, Rejected e) \<in> set outs" by (rule map_of_SomeD)
  then have "(i, Rejected e) \<in> set (filter (\<lambda>p. is_failure (snd p)) outs)" by simp
  then show "i \<in> fst ` set (filter (\<lambda>p. is_failure (snd p)) outs)" by force
next
  fix i assume "i \<in> fst ` set (filter (\<lambda>p. is_failure (snd p)) outs)"
  then obtain out where m: "(i, out) \<in> set outs" and f: "is_failure out" by auto
  from f obtain e where "out = Rejected e" by (cases out) auto
  with m assms have "map_of outs i = Some (Rejected e)" by simp
  then show "i \<in> {i. \<exists>e. map_of outs i = Some (Rejected e)}" by auto
qed

lemma succeeded_indices:
  assumes "distinct (map fst outs)" and "\<forall>p\<in>set outs. payload_defined (snd p)"
  shows "{i. \<exists>r. map_of outs i = Some (Fulfilled r) \<and> resp_data r \<noteq> JUndefined} =
         fst ` set (filter (\<lambda>p. \<not> is_failure (snd p)) outs)"
proof (intro set_eqI iffI)
  fix i assume "i \<in> {i. \<exists>r. map_of outs i = Some (Fulfilled r) \<and> resp_data r \<noteq> JUndefined}"
  then obtain r where "map_of outs i = Some (Fulfilled r)" by auto
  then have "(i, Fulfilled r) \<in> set outs" by (rule map_of_SomeD)
  then have "(i, Fulfilled r) \<in> set (filter (\<lambda>p. \<not> is_failure (snd p)) outs)" by simp
  then show "i \<in> fst ` set (filter (\<lambda>p. \<not> is_failure (snd p)) outs)" by force
next
  fix i assume "i \<in> fst ` set (filter (\<lambda>p. \<not> is_failure (snd p)) outs)"
  then obtain out where m: "(i, out) \<in> set outs" and f: "\<not> is_failure out" by auto
  from f obtain r where r: "out = Fulfilled r" by (cases out) auto
  with m assms(2) have "resp_data r \<noteq> JUndefined" by fastforce
  moreover from m r assms(1) have "map_of outs i = Some (Fulfilled r)" by simp
  ultimately show "i \<in> {i. \<exists>r. map_of outs i = Some (Fulfilled r) \<and> resp_data r \<noteq> JUndefined}"
    by auto
qed

lemma count_errors_fresh:
  assumes "distinct (map fst outs)" and "errors s = []"
  shows "card {i. truthy (js_get JUndefined (errors (fold apply_outcome outs s)) i)} =
         length (filter (\<lambda>p. is_failure (snd p)) outs)"
proof -
  have "truthy (js_get JUndefined (errors (fold apply_outcome outs s)) i) =
        (\<exists>e. map_of outs i = Some (Rejected e))" for i
    by (simp add: fold_errors_get [OF assms(1)] assms(2) js_get_Nil truthy_failure_message
        split: option.split promise_result.split)
  then have "{i. truthy (js_get JUndefined (errors (fold apply_outcome outs s)) i)} =
      {i. \<exists>e. map_of outs i = Some (Rejected e)}"
    by simp
  also have "\<dots> = fst ` set (filter (\<lambda>p. is_failure (snd p)) outs)"
    by (rule failed_indices [OF assms(1)])
  finally show ?thesis
    by (simp only: card_fst_filter [OF assms(1)])
qed

lemma count_data_fresh:
  assumes "distinct (map fst outs)" and "data s = []"
    and "\<forall>p\<in>set outs. payload_defined (snd p)"
  shows "card {i. js_get JUndefined (data (fold apply_outcome outs s)) i \<noteq> JUndefined} =
         length outs - length (filter (\<lambda>p. is_failure (snd p)) outs)"
proof -
  have "(js_get JUndefined (data (fold apply_outcome outs s)) i \<noteq> JUndefined) =
        (\<exists>r. map_of outs i = Some (Fulfilled r) \<and> resp_data r \<noteq> JUndefined)" for i
    by (simp add: fold_data_get [OF assms(1)] assms(2) js_get_Nil
        split: option.split promise_result.split)
  then have "{i. js_get JUndefined (data (fold apply_outcome outs s)) i \<noteq> JUndefined} =
      {i. \<exists>r. map_of outs i = Some (Fulfilled r) \<and> resp_data r \<noteq> JUndefined}"
    by simp
  also have "\<dots> = fst ` set (filter (\<lambda>p. \<not> is_failure (snd p)) outs)"
    by (rule succeeded_indices [OF assms(1,3)])
  finally have "card {i. js_get JUndefined (data (fold apply_outcome outs s)) i \<noteq> JUndefined} =
      length (filter (\<lambda>p. \<not> is_failure (snd p)) outs)"
    by (simp only: card_fst_filter [OF assms(1)])
  moreover have "length (filter (\<lambda>p. is_failure (snd p)) outs) +
      length (filter (\<lambda>p. \<not> is_failure (snd p)) outs) = length outs"
    by (rule sum_length_filter_compl)
  ultimately show ?thesis by simp
qed

lemma length_all_indices:
  assumes "distinct (map fst outs)" and "fst ` set outs = {..<n}"
  shows "length outs = n"
proof -
  have "card (set (map fst outs)) = length (map fst outs)"
    using assms(1) by (rule distinct_card)
  with assms(2) show ?thesis by simp
qed

lemma cycle_start_ready:
  assumes "sys = fm_mount n \<or> sys = fm_step Refetch (fm_run pre (fm_mount n)) \<or>
           sys = fm_step DepsChange (fm_run pre (fm_mount n))"
  shows "\<forall>i<n. \<exists>a\<in>set (inflight sys). is_attempt (epoch sys) i a"
    and "\<forall>b\<in>set (inflight sys). a_gen b = epoch sys \<longrightarrow> \<not> a_aborted b"
    and "li_inv (hook sys)"
proof -
  let ?R = "fm_run pre (fm_mount n)"
  let ?R' = "?R\<lparr>hook := refetch (hook ?R)\<rparr>"
  have g: "gen_inv ?R" and g': "gen_inv ?R'"
    using gen_inv_reachable [of pre n] by (simp_all add: gen_inv_def)
  have u: "urls_len ?R = n" "urls_len ?R' = n"
    by (simp_all add: urls_len_reachable)
  have l: "li_inv (hook (fm_mount n))" "li_inv (hook (fm_step Refetch ?R))"
    "li_inv (hook (fm_step DepsChange ?R))"
    by (rule li_inv_mount) (rule li_inv_step [OF li_inv_reachable])+
  from assms consider "sys = fm_mount n" | "sys = rerun_effect ?R'" | "sys = rerun_effect ?R"
    by auto
  then have "(\<forall>i<n. \<exists>a\<in>set (inflight sys). is_attempt (epoch sys) i a) \<and>
      (\<forall>b\<in>set (inflight sys). a_gen b = epoch sys \<longrightarrow> \<not> a_aborted b)"
  proof cases
    case 1
    then show ?thesis using mount_ready [of n] by simp
  next
    case 2
    then show ?thesis using rerun_ready [OF g'] u by simp
  next
    case 3
    then show ?thesis using rerun_ready [OF g] u by simp
  qed
  then show "\<forall>i<n. \<exists>a\<in>set (inflight sys). is_attempt (epoch sys) i a"
    and "\<forall>b\<in>set (inflight sys). a_gen b = epoch sys \<longrightarrow> \<not> a_aborted b"
    by blast+
  from assms l show "li_inv (hook sys)" by auto
qed

section \<open>The claims\<close>

text \<open>
  Claim C1: once generation \<open>G\<close> has been cancelled and generation \<open>G + 1\<close> has started, no
  attempt of generation \<open>G\<close> that settles afterwards writes \<^verbatim>\<open>data[i]\<close>, \<^verbatim>\<open>errors[i]\<close> or
  \<^verbatim>\<open>responses[i]\<close>.

  The run below: two urls, \<^verbatim>\<open>refetch()\<close> while both requests of generation 0 are pending,
  then both settle. The per-request \<^verbatim>\<open>.catch\<close> does not look at \<^verbatim>\<open>isCancel\<close> (only the
  outer \<^verbatim>\<open>catch\<close> does), so each cancelled request writes its message into \<^verbatim>\<open>errors\<close>;
  \<^verbatim>\<open>data\<close> and \<^verbatim>\<open>responses\<close> stay as they were.
\<close>

theorem stale_generation_writes_errors:
  "hook (fm_run [Refetch,
                 Settle 0 1 (Rejected canceled_error),
                 Settle 0 0 (Rejected canceled_error)] (fm_mount 2)) =
     \<lparr>data = [], errors = [JStr ''canceled'', JStr ''canceled''], error = [], responses = [],
      loadingIndex = [Some True, Some True], retries = 1\<rparr>"
  by code_simp

text \<open>
  Claim C2: in both hooks an attempt whose failure is a cancellation leaves the state
  untouched, and its message never shows in \<^verbatim>\<open>error\<close> (useFetch) or \<^verbatim>\<open>errors[]\<close>
  (useFetchMultiple).

  In useFetchMultiple the \<^verbatim>\<open>.catch\<close> of a request stores the message of the cancellation
  error. In useFetch, \<^verbatim>\<open>refetch()\<close> before the first request has settled aborts it, and its
  \<^verbatim>\<open>.catch\<close> then stores the message, clears \<^verbatim>\<open>isLoading\<close> (the second request is still
  pending) and stores the error object as \<^verbatim>\<open>response\<close>.
\<close>

theorem cancelled_attempt_is_recorded:
  "on_catch 0 canceled_error (fm_initial 1) =
     \<lparr>data = [], errors = [JStr ''canceled''], error = [], responses = [],
      loadingIndex = [Some True], retries = 0\<rparr> \<and>
   sf_run [SfRefetch, SfSettle 0 (Rejected canceled_error)] sf_mount =
     \<lparr>sf_hook = \<lparr>isLoading = False, sf_data = JNull, sf_error = ''canceled'',
                 response = ErrorObject canceled_error, sf_retries = 1\<rparr>,
      sf_epoch = 1, sf_inflight = [(1, False)]\<rparr>"
  by code_simp

text \<open>
  Claim C3: in useFetch a failure that is not a cancellation stores its message in
  \<^verbatim>\<open>error\<close>, the outcome in \<^verbatim>\<open>response\<close> and clears \<^verbatim>\<open>isLoading\<close>; a cancellation
  changes nothing.

  The guard of the \<^verbatim>\<open>.catch\<close> is \<^verbatim>\<open>if (!isCancel(err)) return\<close>, under the comment
  "if the request is cancelled, don't set the error": a timeout leaves the hook loading
  with an empty \<^verbatim>\<open>error\<close>, a cancellation is stored.
\<close>

theorem useFetch_catch_guard_inverted:
  "sf_catch timeout_error (sf_fetch_start sf_initial) =
     \<lparr>isLoading = True, sf_data = JNull, sf_error = [], response = NoResponse, sf_retries = 0\<rparr> \<and>
   sf_catch canceled_error (sf_fetch_start sf_initial) =
     \<lparr>isLoading = False, sf_data = JNull, sf_error = ''canceled'',
      response = ErrorObject canceled_error, sf_retries = 0\<rparr>"
  by code_simp

text \<open>
  Claim C4: in every bulk cycle over \<open>N\<close> resources in which \<open>k\<close> attempts fail and
  \<open>N - k\<close> succeed, the final state has exactly \<open>k\<close> non-empty \<^verbatim>\<open>errors[]\<close> entries, at
  the failed indices, and \<open>N - k\<close> populated \<^verbatim>\<open>data[]\<close> entries, at the succeeded indices,
  whatever the order of completion.

  A cycle does not clear what an earlier cycle left. One url: its request fails in the
  first cycle; after \<^verbatim>\<open>refetch()\<close> the request of the second cycle succeeds. That cycle has
  no failure, and \<^verbatim>\<open>errors[0]\<close> still holds the message of the first.
\<close>

theorem later_cycle_keeps_old_errors:
  "hook (fm_run (cycle 0 [(0, Rejected timeout_error)] @ [Refetch] @
                 cycle 1 [(0, Fulfilled (ok_response (JNum 7)))]) (fm_mount 1)) =
     \<lparr>data = [JNum 7], errors = [JStr ''timeout''], error = [],
      responses = [Some (ok_response (JNum 7))], loadingIndex = [Some False], retries = 1\<rparr>"
  by code_simp

text \<open>
  Claim C4, amended: a bulk cycle starts at the mount, at \<^verbatim>\<open>refetch()\<close> or at a change of
  the dependencies; each of its \<open>n\<close> requests settles once. Then the final state is the
  same for every order of completion; each succeeded index holds its payload in
  \<^verbatim>\<open>data\<close> and its response in \<^verbatim>\<open>responses\<close> and keeps the \<^verbatim>\<open>errors\<close> entry it had before
  the cycle; each failed index holds its non-empty message in \<^verbatim>\<open>errors\<close> and keeps the
  \<^verbatim>\<open>data\<close> and \<^verbatim>\<open>responses\<close> entries it had before. For the cycle of the mount,
  \<^verbatim>\<open>errors\<close> has exactly \<open>k\<close> non-empty entries, \<open>k\<close> the number of failures, and, when no
  payload is \<^verbatim>\<open>undefined\<close>, \<^verbatim>\<open>data\<close> has exactly \<open>n - k\<close> populated entries.
\<close>

theorem bulk_cycle_outcome:
  assumes "distinct (map fst outs)" and "fst ` set outs = {..<n}" and "mset outs' = mset outs"
    and "sys = fm_mount n \<or> sys = fm_step Refetch (fm_run pre (fm_mount n)) \<or>
         sys = fm_step DepsChange (fm_run pre (fm_mount n))"
  shows "hook (fm_run (cycle (epoch sys) outs') sys) = hook (fm_run (cycle (epoch sys) outs) sys) \<and>
    (\<forall>i r. (i, Fulfilled r) \<in> set outs \<longrightarrow>
       js_get JUndefined (data (hook (fm_run (cycle (epoch sys) outs) sys))) i = resp_data r \<and>
       js_get None (responses (hook (fm_run (cycle (epoch sys) outs) sys))) i = Some r \<and>
       js_get JUndefined (errors (hook (fm_run (cycle (epoch sys) outs) sys))) i =
         js_get JUndefined (errors (hook sys)) i) \<and>
    (\<forall>i e. (i, Rejected e) \<in> set outs \<longrightarrow>
       js_get JUndefined (errors (hook (fm_run (cycle (epoch sys) outs) sys))) i =
         failure_message e \<and>
       truthy (failure_message e) \<and>
       js_get JUndefined (data (hook (fm_run (cycle (epoch sys) outs) sys))) i =
         js_get JUndefined (data (hook sys)) i \<and>
       js_get None (responses (hook (fm_run (cycle (epoch sys) outs) sys))) i =
         js_get None (responses (hook sys)) i) \<and>
    (sys = fm_mount n \<longrightarrow>
       card {i. truthy (js_get JUndefined (errors (hook (fm_run (cycle (epoch sys) outs) sys))) i)} =
         length (filter (\<lambda>p. is_failure (snd p)) outs) \<and>
       ((\<forall>p\<in>set outs. payload_defined (snd p)) \<longrightarrow>
          card {i. js_get JUndefined (data (hook (fm_run (cycle (epoch sys) outs) sys))) i
                     \<noteq> JUndefined} =
            n - length (filter (\<lambda>p. is_failure (snd p)) outs)))"
proof -
  let ?g = "epoch sys"
  let ?F = "hook (fm_run (cycle ?g outs) sys)"
  note ready = cycle_start_ready [OF assms(4)]
  have in_flight: "\<forall>i\<in>fst ` set outs. \<exists>a\<in>set (inflight sys). is_attempt ?g i a"
    using ready(1) assms(2) by simp
  have F: "?F = fold apply_outcome outs (hook sys)"
    using assms(1) in_flight ready(2) by (rule hook_run_cycle)
  have d': "distinct (map fst outs')"
  proof -
    have "mset (map fst outs') = mset (map fst outs)"
      using assms(3) by simp
    then show ?thesis
      using assms(1) by (metis mset_eq_imp_distinct_iff)
  qed
  have s': "fst ` set outs' = fst ` set outs"
    using assms(3) by (metis mset_eq_setD)
  have "hook (fm_run (cycle ?g outs') sys) = fold apply_outcome outs' (hook sys)"
    using d' in_flight ready(2) unfolding s' [symmetric] by (rule hook_run_cycle)
  also have "\<dots> = fold apply_outcome outs (hook sys)"
    using ready(3) assms(1,3) by (rule fold_apply_outcome_permuted)
  finally have order: "hook (fm_run (cycle ?g outs') sys) = ?F"
    by (simp add: F)
  have ok: "js_get JUndefined (data ?F) i = resp_data r \<and>
       js_get None (responses ?F) i = Some r \<and>
       js_get JUndefined (errors ?F) i = js_get JUndefined (errors (hook sys)) i"
    if "(i, Fulfilled r) \<in> set outs" for i r
  proof -
    have "map_of outs i = Some (Fulfilled r)"
      using that assms(1) by simp
    then show ?thesis
      by (simp add: F fold_data_get [OF assms(1)] fold_responses_get [OF assms(1)]
          fold_errors_get [OF assms(1)])
  qed
  have ko: "js_get JUndefined (errors ?F) i = failure_message e \<and>
       truthy (failure_message e) \<and>
       js_get JUndefined (data ?F) i = js_get JUndefined (data (hook sys)) i \<and>
       js_get None (responses ?F) i = js_get None (responses (hook sys)) i"
    if "(i, Rejected e) \<in> set outs" for i e
  proof -
    have "map_of outs i = Some (Rejected e)"
      using that assms(1) by simp
    then show ?thesis
      by (simp add: F fold_data_get [OF assms(1)] fold_responses_get [OF assms(1)]
          fold_errors_get [OF assms(1)] truthy_failure_message)
  qed
  have counts: "card {i. truthy (js_get JUndefined (errors ?F) i)} =
         length (filter (\<lambda>p. is_failure (snd p)) outs) \<and>
       ((\<forall>p\<in>set outs. payload_defined (snd p)) \<longrightarrow>
          card {i. js_get JUndefined (data ?F) i \<noteq> JUndefined} =
            n - length (filter (\<lambda>p. is_failure (snd p)) outs))"
    if "sys = fm_mount n"
  proof -
    have e: "errors (hook sys) = []" and d: "data (hook sys) = []"
      using that by (simp_all add: fm_mount_def start_fetch_def fm_initial_def fetchData_finish_id)
    have len: "length outs = n"
      using assms(1,2) by (rule length_all_indices)
    show ?thesis
      unfolding F using count_errors_fresh [OF assms(1) e] count_data_fresh [OF assms(1) d] len
      by blast
  qed
  show ?thesis
    using order ok ko counts by blast
qed


theorem bulk_cycle_outcome_witness:
  "hook (fm_run (cycle 0 (rev scenario_abc)) (fm_mount 3)) =
     hook (fm_run (cycle 0 scenario_abc) (fm_mount 3)) \<and>
   js_get JUndefined (data (hook (fm_run (cycle 0 scenario_abc) (fm_mount 3)))) 0 =
     JObj [(''id'', JNum 1)] \<and>
   js_get JUndefined (errors (hook (fm_run (cycle 0 scenario_abc) (fm_mount 3)))) 1 =
     JStr ''timeout'' \<and>
   card {i. truthy (js_get JUndefined
            (errors (hook (fm_run (cycle 0 scenario_abc) (fm_mount 3)))) i)} = 1 \<and>
   card {i. js_get JUndefined
            (data (hook (fm_run (cycle 0 scenario_abc) (fm_mount 3)))) i \<noteq> JUndefined} = 2 \<and>
   hook (fm_run (cycle 1 (rev scenario_abc))
           (fm_step Refetch (fm_run (cycle 0 scenario_abc) (fm_mount 3)))) =
     hook (fm_run (cycle 1 scenario_abc)
           (fm_step Refetch (fm_run (cycle 0 scenario_abc) (fm_mount 3))))"
proof -
  let ?later = "fm_step Refetch (fm_run (cycle 0 scenario_abc) (fm_mount 3))"
  have h1: "distinct (map fst scenario_abc)"
    by (simp add: scenario_abc_def)
  have h2: "fst ` set scenario_abc = {..<3}"
    by (auto simp: scenario_abc_def)
  have h3: "mset (rev scenario_abc) = mset scenario_abc"
    by simp
  have h4: "fm_mount 3 = fm_mount 3 \<or>
      fm_mount 3 = fm_step Refetch (fm_run (cycle 0 scenario_abc) (fm_mount 3)) \<or>
      fm_mount 3 = fm_step DepsChange (fm_run (cycle 0 scenario_abc) (fm_mount 3))"
    by simp
  have h5: "?later = fm_mount 3 \<or>
      ?later = fm_step Refetch (fm_run (cycle 0 scenario_abc) (fm_mount 3)) \<or>
      ?later = fm_step DepsChange (fm_run (cycle 0 scenario_abc) (fm_mount 3))"
    by simp
  have e0: "epoch (fm_mount 3) = 0" and e1: "epoch ?later = 1"
    by code_simp+
  have m: "(0, Fulfilled (ok_response (JObj [(''id'', JNum 1)]))) \<in> set scenario_abc"
    "(1, Rejected timeout_error) \<in> set scenario_abc"
    by (simp_all add: scenario_abc_def)
  have v: "resp_data (ok_response (JObj [(''id'', JNum 1)])) = JObj [(''id'', JNum 1)]"
    "failure_message timeout_error = JStr ''timeout''"
    "length (filter (\<lambda>p. is_failure (snd p)) scenario_abc) = 1"
    by code_simp+
  have pd: "\<forall>p\<in>set scenario_abc. payload_defined (snd p)"
    by (simp add: scenario_abc_def ok_response_def)
  note first = bulk_cycle_outcome [OF h1 h2 h3 h4, unfolded e0]
  note later = bulk_cycle_outcome [OF h1 h2 h3 h5, unfolded e1]
  have a: "hook (fm_run (cycle 0 (rev scenario_abc)) (fm_mount 3)) =
     hook (fm_run (cycle 0 scenario_abc) (fm_mount 3))"
    using first by blast
  have b: "js_get JUndefined (data (hook (fm_run (cycle 0 scenario_abc) (fm_mount 3)))) 0 =
     JObj [(''id'', JNum 1)]"
    using first m(1) v(1) by metis
  have c: "js_get JUndefined (errors (hook (fm_run (cycle 0 scenario_abc) (fm_mount 3)))) 1 =
     JStr ''timeout''"
    using first m(2) v(2) by metis
  have d: "card {i. truthy (js_get JUndefined
            (errors (hook (fm_run (cycle 0 scenario_abc) (fm_mount 3)))) i)} = 1"
    using first v(3) by simp
  have e: "card {i. js_get JUndefined
            (data (hook (fm_run (cycle 0 scenario_abc) (fm_mount 3)))) i \<noteq> JUndefined} = 2"
    using first v(3) pd by simp
  have f: "hook (fm_run (cycle 1 (rev scenario_abc)) ?later) =
     hook (fm_run (cycle 1 scenario_abc) ?later)"
    using later by blast
  show ?thesis
    using a b c d e f by blast
qed

text \<open>
  Claim C5: \<^verbatim>\<open>loadingIndex[i]\<close> becomes false exactly when \<^verbatim>\<open>data[i]\<close> first becomes
  non-empty, and for no other reason; a slot whose attempt fails, with no later success,
  stays marked loading.

  Non-empty is the test of the source, \<^verbatim>\<open>if (d)\<close>. In every state the hook reaches from
  its mount: a truthy \<^verbatim>\<open>data[i]\<close> has \<^verbatim>\<open>loadingIndex[i] = false\<close>; an event changes
  \<^verbatim>\<open>loadingIndex[i]\<close> only to false, and only when it turns \<^verbatim>\<open>data[i]\<close> from falsy to truthy;
  and as long as no event has filled \<^verbatim>\<open>data[i]\<close>, slot \<open>i\<close> of the \<open>n\<close> urls is still
  marked loading, whatever failed or was refetched meanwhile.
\<close>

theorem loadingIndex_follows_data:
  "(truthy (js_get JUndefined (data (hook (fm_run evs (fm_mount n)))) i) \<longrightarrow>
      js_get None (loadingIndex (hook (fm_run evs (fm_mount n)))) i = Some False) \<and>
   (js_get None (loadingIndex (hook (fm_step e (fm_run evs (fm_mount n))))) i \<noteq>
      js_get None (loadingIndex (hook (fm_run evs (fm_mount n)))) i \<longrightarrow>
      js_get None (loadingIndex (hook (fm_step e (fm_run evs (fm_mount n))))) i = Some False \<and>
      truthy (js_get JUndefined (data (hook (fm_step e (fm_run evs (fm_mount n))))) i) \<and>
      \<not> truthy (js_get JUndefined (data (hook (fm_run evs (fm_mount n)))) i)) \<and>
   (i < n \<and> (\<forall>e\<in>set evs. \<not> fills i e) \<longrightarrow>
      js_get None (loadingIndex (hook (fm_run evs (fm_mount n)))) i = Some True)"
proof (intro conjI impI)
  let ?sys = "fm_run evs (fm_mount n)"
  show a: "js_get None (loadingIndex (hook ?sys)) i = Some False"
    if "truthy (js_get JUndefined (data (hook ?sys)) i)"
    using that li_inv_reachable li_inv_get by blast
  assume ch: "js_get None (loadingIndex (hook (fm_step e ?sys))) i \<noteq>
      js_get None (loadingIndex (hook ?sys)) i"
  with step_loading_cases [of e ?sys i]
  show f: "js_get None (loadingIndex (hook (fm_step e ?sys))) i = Some False"
    and "truthy (js_get JUndefined (data (hook (fm_step e ?sys))) i)"
    by blast+
  show "\<not> truthy (js_get JUndefined (data (hook ?sys)) i)"
  proof
    assume "truthy (js_get JUndefined (data (hook ?sys)) i)"
    then have "js_get None (loadingIndex (hook ?sys)) i = Some False"
      using li_inv_reachable li_inv_get by blast
    with ch f show False by simp
  qed
next
  assume "i < n \<and> (\<forall>e\<in>set evs. \<not> fills i e)"
  then show "js_get None (loadingIndex (hook (fm_run evs (fm_mount n)))) i = Some True"
    using run_keeps_loading [of evs i "fm_mount n"] mount_slot_loading [of i n]
      mount_slot_data [of n i] by simp
qed

theorem loadingIndex_follows_data_witness:
  "truthy (js_get JUndefined (data (hook (fm_run (cycle 0 scenario_abc) (fm_mount 3)))) 0) \<and>
   js_get None (loadingIndex (hook (fm_run (cycle 0 scenario_abc) (fm_mount 3)))) 0 = Some False \<and>
   js_get None (loadingIndex (hook (fm_step (SettleIndex 1 (Fulfilled (ok_response (JNum 2))))
       (fm_run [Settle 0 1 (Rejected timeout_error), RefetchIndex 1] (fm_mount 3))))) 1 \<noteq>
     js_get None (loadingIndex (hook
       (fm_run [Settle 0 1 (Rejected timeout_error), RefetchIndex 1] (fm_mount 3)))) 1 \<and>
   truthy (js_get JUndefined (data (hook (fm_step (SettleIndex 1 (Fulfilled (ok_response (JNum 2))))
       (fm_run [Settle 0 1 (Rejected timeout_error), RefetchIndex 1] (fm_mount 3))))) 1) \<and>
   (1::nat) < 3 \<and> list_all (\<lambda>e. \<not> fills 1 e) (cycle 0 scenario_abc) \<and>
   js_get None (loadingIndex (hook (fm_run (cycle 0 scenario_abc) (fm_mount 3)))) 1 = Some True"
proof -
  have h1: "truthy (js_get JUndefined (data (hook (fm_run (cycle 0 scenario_abc) (fm_mount 3)))) 0)"
    by code_simp
  have h2: "js_get None (loadingIndex (hook (fm_step (SettleIndex 1 (Fulfilled (ok_response (JNum 2))))
       (fm_run [Settle 0 1 (Rejected timeout_error), RefetchIndex 1] (fm_mount 3))))) 1 \<noteq>
     js_get None (loadingIndex (hook
       (fm_run [Settle 0 1 (Rejected timeout_error), RefetchIndex 1] (fm_mount 3)))) 1"
    by code_simp
  have h3: "(1::nat) < 3 \<and> list_all (\<lambda>e. \<not> fills 1 e) (cycle 0 scenario_abc)"
    by code_simp
  then have h4: "\<forall>e\<in>set (cycle 0 scenario_abc). \<not> fills 1 e"
    by (simp add: list_all_iff)
  show ?thesis
    using h1 h2 h3 h4
      loadingIndex_follows_data [where evs = "cycle 0 scenario_abc" and n = 3 and i = 0]
      loadingIndex_follows_data [where evs = "[Settle 0 1 (Rejected timeout_error), RefetchIndex 1]"
        and n = 3 and i = 1 and e = "SettleIndex 1 (Fulfilled (ok_response (JNum 2)))"]
      loadingIndex_follows_data [where evs = "cycle 0 scenario_abc" and n = 3 and i = 1]
    by blast
qed

text \<open>
  Claim C6: every start of a generation re-arms the slot before the attempt is issued, in
  useFetch and in each slot of useFetchMultiple: loading becomes true and the stored
  error is cleared.

  useFetchMultiple has no such step. After a failure and \<^verbatim>\<open>refetch()\<close> the old message is
  still in \<^verbatim>\<open>errors[0]\<close>; after a success and \<^verbatim>\<open>refetch()\<close> the flag \<^verbatim>\<open>loadingIndex[0]\<close> is
  still false while the request of generation 1 is pending.
\<close>

theorem useFetchMultiple_not_rearmed:
  "hook (fm_run [Settle 0 0 (Rejected timeout_error), Refetch] (fm_mount 1)) =
     \<lparr>data = [], errors = [JStr ''timeout''], error = [], responses = [],
      loadingIndex = [Some True], retries = 1\<rparr> \<and>
   hook (fm_run [Settle 0 0 (Fulfilled (ok_response (JNum 7))), Refetch] (fm_mount 1)) =
     \<lparr>data = [JNum 7], errors = [], error = [], responses = [Some (ok_response (JNum 7))],
      loadingIndex = [Some False], retries = 1\<rparr> \<and>
   inflight (fm_run [Settle 0 0 (Fulfilled (ok_response (JNum 7))), Refetch] (fm_mount 1)) =
     [\<lparr>a_gen = 1, a_index = 0, a_aborted = False\<rparr>]"
  by code_simp

text \<open>
  Claim C6, amended: useFetch re-arms at every start of a generation (the mount,
  \<^verbatim>\<open>refetch()\<close>, a change of the dependencies): \<^verbatim>\<open>isLoading\<close> is true and \<^verbatim>\<open>error\<close> is empty
  when the new request is in flight. useFetchMultiple starts a generation without
  touching its slots: a change of the dependencies leaves the whole state as it is, and
  \<^verbatim>\<open>refetch()\<close> changes \<^verbatim>\<open>retries\<close> only.
\<close>

theorem generation_start_rearms_useFetch:
  "isLoading (sf_hook sf_mount) \<and> sf_error (sf_hook sf_mount) = [] \<and>
   sf_inflight sf_mount = [(0, False)] \<and>
   isLoading (sf_hook (sf_step SfRefetch sys)) \<and> sf_error (sf_hook (sf_step SfRefetch sys)) = [] \<and>
   last (sf_inflight (sf_step SfRefetch sys)) = (sf_epoch sys + 1, False) \<and>
   isLoading (sf_hook (sf_step SfDepsChange sys)) \<and>
   sf_error (sf_hook (sf_step SfDepsChange sys)) = [] \<and>
   last (sf_inflight (sf_step SfDepsChange sys)) = (sf_epoch sys + 1, False) \<and>
   hook (fm_step DepsChange m) = hook m \<and>
   hook (fm_step Refetch m) = (hook m)\<lparr>retries := retries (hook m) + 1\<rparr>"
  by (simp add: sf_mount_def sf_start_def sf_fetch_start_def sf_rerun_effect_def sf_cleanup_def
      sf_initial_def hook_rerun_effect refetch_def)

theorem generation_start_rearms_useFetch_witness:
  "isLoading (sf_hook (sf_step SfRefetch (sf_run [SfSettle 0 (Rejected canceled_error)] sf_mount))) \<and>
   sf_error (sf_hook (sf_step SfRefetch (sf_run [SfSettle 0 (Rejected canceled_error)] sf_mount))) = [] \<and>
   hook (fm_step DepsChange (fm_run (cycle 0 scenario_abc) (fm_mount 3))) =
     hook (fm_run (cycle 0 scenario_abc) (fm_mount 3))"
  using generation_start_rearms_useFetch
    [where sys = "sf_run [SfSettle 0 (Rejected canceled_error)] sf_mount"
       and m = "fm_run (cycle 0 scenario_abc) (fm_mount 3)"]
  by blast

text \<open>
  Claim C7: the counter \<^verbatim>\<open>retries\<close> of both hooks only grows: \<^verbatim>\<open>refetch()\<close> adds exactly
  one, and nothing else (\<^verbatim>\<open>setData\<close>, \<^verbatim>\<open>refetchIndex\<close>, a settling attempt, a change of
  the dependencies, the teardown) changes it. After any sequence of events it is its old
  value plus the number of \<^verbatim>\<open>refetch()\<close> calls in the sequence.
\<close>

theorem retries_counts_refetch_calls:
  "retries (hook (fm_step e sys)) = retries (hook sys) + (if e = Refetch then 1 else 0) \<and>
   retries (hook (fm_run evs sys)) = retries (hook sys) + count_list evs Refetch \<and>
   sf_retries (sf_hook (sf_step e' sys')) =
      sf_retries (sf_hook sys') + (if e' = SfRefetch then 1 else 0) \<and>
   sf_retries (sf_hook (sf_run evs' sys')) = sf_retries (sf_hook sys') + count_list evs' SfRefetch"
  by (simp only: fm_step_retries fm_run_retries sf_step_retries sf_run_retries simp_thms)

theorem retries_counts_refetch_calls_witness:
  "retries (hook (fm_run [Refetch, SetData [JNum 1], RefetchIndex 0,
       SettleIndex 0 (Rejected timeout_error), Refetch] (fm_mount 1))) = 2 \<and>
   sf_retries (sf_hook (sf_run [SfRefetch, SfSetData JNull, SfSettle 1 (Rejected timeout_error)]
       sf_mount)) = 1"
proof -
  have "retries (hook (fm_mount 1)) = 0" and "sf_retries (sf_hook sf_mount) = 0"
    by code_simp+
  then show ?thesis
    using retries_counts_refetch_calls [where sys = "fm_mount 1" and sys' = sf_mount
        and evs = "[Refetch, SetData [JNum 1], RefetchIndex 0,
                    SettleIndex 0 (Rejected timeout_error), Refetch]"
        and evs' = "[SfRefetch, SfSetData JNull, SfSettle 1 (Rejected timeout_error)]"]
    by simp
qed

text \<open>
  Claim C8: \<^verbatim>\<open>refetchIndex(i)\<close> runs outside the generations (no cancellation token, no change
  of \<^verbatim>\<open>retries\<close>, not cancelled by a bulk \<^verbatim>\<open>refetch()\<close> or the teardown) and, when it settles,
  changes position \<open>i\<close> only: \<^verbatim>\<open>data[i]\<close> and \<^verbatim>\<open>responses[i]\<close> on success, \<^verbatim>\<open>errors[i]\<close> on
  failure; every other position, \<^verbatim>\<open>loadingIndex\<close>, \<^verbatim>\<open>retries\<close> and \<^verbatim>\<open>error\<close> are unchanged.

  A success changes \<^verbatim>\<open>data\<close>, so the effect on \<^verbatim>\<open>[data]\<close> runs: with one url just mounted,
  a successful \<^verbatim>\<open>refetchIndex(0)\<close> clears \<^verbatim>\<open>loadingIndex[0]\<close>.
\<close>

theorem refetchIndex_clears_loading_flag:
  "loadingIndex (hook (fm_run [RefetchIndex 0] (fm_mount 1))) = [Some True] \<and>
   hook (fm_run [RefetchIndex 0, SettleIndex 0 (Fulfilled (ok_response (JNum 7)))] (fm_mount 1)) =
     \<lparr>data = [JNum 7], errors = [], error = [], responses = [Some (ok_response (JNum 7))],
      loadingIndex = [Some False], retries = 0\<rparr>"
  by code_simp

text \<open>
  Claim C8, amended: \<^verbatim>\<open>refetchIndex(i)\<close> only adds a request without a controller: the state
  of the hook, the generation and the controllers are as before, and neither \<^verbatim>\<open>refetch()\<close>, a
  change of the dependencies nor the teardown removes it. When it settles, in any state
  reached from the mount, a success writes \<^verbatim>\<open>data[i]\<close> and \<^verbatim>\<open>responses[i]\<close> and clears
  \<^verbatim>\<open>loadingIndex[i]\<close> when the payload is truthy; a failure writes \<^verbatim>\<open>errors[i]\<close>; nothing
  else changes, and an assignment to position \<open>i\<close> is read back at no other position.
\<close>

theorem refetchIndex_frame:
  "fm_step (RefetchIndex i) sys = sys\<lparr>inflight_index := i # inflight_index sys\<rparr> \<and>
   inflight_index (fm_step Refetch sys) = inflight_index sys \<and>
   inflight_index (fm_step DepsChange sys) = inflight_index sys \<and>
   inflight_index (fm_step Unmount sys) = inflight_index sys \<and>
   (i \<in> set (inflight_index (fm_run evs (fm_mount n))) \<longrightarrow>
      hook (fm_step (SettleIndex i (Fulfilled res)) (fm_run evs (fm_mount n))) =
        (hook (fm_run evs (fm_mount n)))
          \<lparr>data := js_assign JUndefined (data (hook (fm_run evs (fm_mount n)))) i (resp_data res),
           responses := js_assign None (responses (hook (fm_run evs (fm_mount n)))) i (Some res),
           loadingIndex :=
             (if truthy (resp_data res)
              then js_assign None (loadingIndex (hook (fm_run evs (fm_mount n)))) i (Some False)
              else loadingIndex (hook (fm_run evs (fm_mount n))))\<rparr>) \<and>
   (i \<in> set (inflight_index sys) \<longrightarrow>
      hook (fm_step (SettleIndex i (Rejected err)) sys) =
        (hook sys)\<lparr>errors := js_assign JUndefined (errors (hook sys)) i
                     (js_or (error_title err) (JStr ''Something went wrong''))\<rparr>) \<and>
   (k \<noteq> i \<longrightarrow> js_get h (js_assign h xs i v) k = js_get h xs k)"
proof -
  have "inflight_index (rerun_effect s) = inflight_index s" for s
    by (simp add: rerun_effect_def start_fetch_def cleanup_def)
  moreover have "hook (fm_step (SettleIndex i (Fulfilled res)) (fm_run evs (fm_mount n))) =
        (hook (fm_run evs (fm_mount n)))
          \<lparr>data := js_assign JUndefined (data (hook (fm_run evs (fm_mount n)))) i (resp_data res),
           responses := js_assign None (responses (hook (fm_run evs (fm_mount n)))) i (Some res),
           loadingIndex :=
             (if truthy (resp_data res)
              then js_assign None (loadingIndex (hook (fm_run evs (fm_mount n)))) i (Some False)
              else loadingIndex (hook (fm_run evs (fm_mount n))))\<rparr>"
    if "i \<in> set (inflight_index (fm_run evs (fm_mount n)))"
    using that loading_effect_after_then [OF li_inv_reachable [of evs n], of i res]
    by (simp add: hook_settle_index refetchIndex_settle_def refetchIndex_then_eq)
  ultimately show ?thesis
    by (simp add: cleanup_def hook_settle_index refetchIndex_settle_def refetchIndex_catch_def
        js_get_js_assign)
qed

theorem refetchIndex_frame_witness:
  "1 \<in> set (inflight_index
      (fm_run [Settle 0 1 (Rejected timeout_error), RefetchIndex 1, Refetch, Unmount] (fm_mount 3))) \<and>
   hook (fm_step (SettleIndex 1 (Fulfilled (ok_response (JNum 2))))
      (fm_run [Settle 0 1 (Rejected timeout_error), RefetchIndex 1, Refetch, Unmount] (fm_mount 3))) =
     \<lparr>data = [JUndefined, JNum 2], errors = [JUndefined, JStr ''timeout''], error = [],
      responses = [None, Some (ok_response (JNum 2))],
      loadingIndex = [Some True, Some False, Some True], retries = 1\<rparr> \<and>
   hook (fm_step (SettleIndex 1 (Rejected timeout_error))
      (fm_run [Settle 0 1 (Rejected timeout_error), RefetchIndex 1, Refetch, Unmount] (fm_mount 3))) =
     \<lparr>data = [], errors = [JUndefined, JStr ''Something went wrong''], error = [],
      responses = [], loadingIndex = [Some True, Some True, Some True], retries = 1\<rparr>"
proof -
  let ?evs = "[Settle 0 1 (Rejected timeout_error), RefetchIndex 1, Refetch, Unmount]"
  let ?R = "fm_run ?evs (fm_mount 3)"
  note frame = refetchIndex_frame [where i = 1 and evs = ?evs and n = 3 and sys = ?R
      and res = "ok_response (JNum 2)" and err = timeout_error]
  note settled = frame [THEN conjunct2, THEN conjunct2, THEN conjunct2, THEN conjunct2]
  have h: "1 \<in> set (inflight_index ?R)"
    by code_simp
  have "hook (fm_step (SettleIndex 1 (Fulfilled (ok_response (JNum 2)))) ?R) =
      (hook ?R)
        \<lparr>data := js_assign JUndefined (data (hook ?R)) 1 (resp_data (ok_response (JNum 2))),
         responses := js_assign None (responses (hook ?R)) 1 (Some (ok_response (JNum 2))),
         loadingIndex :=
           (if truthy (resp_data (ok_response (JNum 2)))
            then js_assign None (loadingIndex (hook ?R)) 1 (Some False)
            else loadingIndex (hook ?R))\<rparr>"
    by (rule mp [OF settled [THEN conjunct1] h])
  also have "\<dots> =
     \<lparr>data = [JUndefined, JNum 2], errors = [JUndefined, JStr ''timeout''], error = [],
      responses = [None, Some (ok_response (JNum 2))],
      loadingIndex = [Some True, Some False, Some True], retries = 1\<rparr>"
    by code_simp
  finally have a: "hook (fm_step (SettleIndex 1 (Fulfilled (ok_response (JNum 2)))) ?R) =
     \<lparr>data = [JUndefined, JNum 2], errors = [JUndefined, JStr ''timeout''], error = [],
      responses = [None, Some (ok_response (JNum 2))],
      loadingIndex = [Some True, Some False, Some True], retries = 1\<rparr>" .
  have "hook (fm_step (SettleIndex 1 (Rejected timeout_error)) ?R) =
      (hook ?R)\<lparr>errors := js_assign JUndefined (errors (hook ?R)) 1
                   (js_or (error_title timeout_error) (JStr ''Something went wrong''))\<rparr>"
    by (rule mp [OF settled [THEN conjunct2, THEN conjunct1] h])
  also have "\<dots> =
     \<lparr>data = [], errors = [JUndefined, JStr ''Something went wrong''], error = [],
      responses = [], loadingIndex = [Some True, Some True, Some True], retries = 1\<rparr>"
    by code_simp
  finally have b: "hook (fm_step (SettleIndex 1 (Rejected timeout_error)) ?R) =
     \<lparr>data = [], errors = [JUndefined, JStr ''Something went wrong''], error = [],
      responses = [], loadingIndex = [Some True, Some True, Some True], retries = 1\<rparr>" .
  show ?thesis
    using h a b by blast
qed

text \<open>
  Claim C9: \<^verbatim>\<open>setData(v)\<close> makes \<^verbatim>\<open>data\<close> equal to \<open>v\<close> and changes nothing else: the loading
  flags, the errors, the responses and the counter stay as they are.

  In useFetchMultiple the new \<^verbatim>\<open>data\<close> runs the effect on \<^verbatim>\<open>[data]\<close>: with two urls just
  mounted, \<^verbatim>\<open>setData([1])\<close> clears \<^verbatim>\<open>loadingIndex[0]\<close>.
\<close>

theorem setData_clears_loading_flag:
  "loadingIndex (hook (fm_mount 2)) = [Some True, Some True] \<and>
   hook (fm_step (SetData [JNum 1]) (fm_mount 2)) =
     \<lparr>data = [JNum 1], errors = [], error = [], responses = [],
      loadingIndex = [Some False, Some True], retries = 0\<rparr>"
  by code_simp

text \<open>
  Claim C9, amended: in useFetch, \<^verbatim>\<open>setData(v)\<close> changes \<^verbatim>\<open>data\<close> and nothing else. In
  useFetchMultiple, \<^verbatim>\<open>setData(w)\<close> replaces the whole of \<^verbatim>\<open>data\<close>, leaves \<^verbatim>\<open>errors\<close>, \<^verbatim>\<open>error\<close>,
  \<^verbatim>\<open>responses\<close>, \<^verbatim>\<open>retries\<close> and the requests in flight as they are, and clears the loading
  flag of every index whose new entry is truthy; the other flags keep their value.
\<close>

theorem setData_frame:
  "sf_step (SfSetData v) sys' = sys'\<lparr>sf_hook := (sf_hook sys')\<lparr>sf_data := v\<rparr>\<rparr> \<and>
   data (hook (fm_step (SetData w) sys)) = w \<and>
   errors (hook (fm_step (SetData w) sys)) = errors (hook sys) \<and>
   error (hook (fm_step (SetData w) sys)) = error (hook sys) \<and>
   responses (hook (fm_step (SetData w) sys)) = responses (hook sys) \<and>
   retries (hook (fm_step (SetData w) sys)) = retries (hook sys) \<and>
   epoch (fm_step (SetData w) sys) = epoch sys \<and>
   inflight (fm_step (SetData w) sys) = inflight sys \<and>
   inflight_index (fm_step (SetData w) sys) = inflight_index sys \<and>
   js_get None (loadingIndex (hook (fm_step (SetData w) sys))) i =
     (if truthy (js_get JUndefined w i) then Some False
      else js_get None (loadingIndex (hook sys)) i)"
  by (simp add: sf_setData_def setData_def loading_effect_frame loading_effect_get)

theorem setData_frame_witness:
  "data (hook (fm_step (SetData [JNum 1]) (fm_mount 2))) = [JNum 1] \<and>
   js_get None (loadingIndex (hook (fm_step (SetData [JNum 1]) (fm_mount 2)))) 0 = Some False \<and>
   js_get None (loadingIndex (hook (fm_step (SetData [JNum 1]) (fm_mount 2)))) 1 = Some True \<and>
   sf_data (sf_hook (sf_step (SfSetData (JNum 1)) sf_mount)) = JNum 1"
proof -
  have "truthy (js_get JUndefined [JNum 1] 0)" "\<not> truthy (js_get JUndefined [JNum 1] 1)"
    "js_get None (loadingIndex (hook (fm_mount 2))) 1 = Some True"
    by code_simp+
  then show ?thesis
    using setData_frame [where w = "[JNum 1]" and sys = "fm_mount 2" and i = 0
        and v = "JNum 1" and sys' = sf_mount]
      setData_frame [where w = "[JNum 1]" and sys = "fm_mount 2" and i = 1
        and v = "JNum 1" and sys' = sf_mount]
    by simp
qed

text \<open>
  Claim C10: the aggregate \<^verbatim>\<open>error\<close> of useFetchMultiple is always the empty string. Its
  only assignment is in the outer \<^verbatim>\<open>catch\<close> of \<^verbatim>\<open>fetchData\<close>; each request promise ends
  in its own \<^verbatim>\<open>.catch\<close> and is fulfilled, \<^verbatim>\<open>Promise.allSettled\<close> does not reject, so
  \<^verbatim>\<open>fetchData\<close> finishes without a change, no event changes \<^verbatim>\<open>error\<close>, and it is empty in
  every state reached from the mount.
\<close>

theorem aggregate_error_stays_empty:
  "fst (request_chain i out s) = Fulfilled () \<and>
   fetchData_finish requests s = s \<and>
   error (hook (fm_step e sys)) = error (hook sys) \<and>
   error (hook (fm_run evs (fm_mount n))) = []"
proof -
  have "error (hook (fm_mount n)) = []"
    by (simp add: fm_mount_def start_fetch_def fm_initial_def fetchData_finish_id)
  then show ?thesis
    by (simp add: request_chain_fulfilled fetchData_finish_id fm_step_error fm_run_error)
qed

theorem aggregate_error_stays_empty_witness:
  "error (hook (fm_run (Refetch # cycle 0 scenario_abc @ cycle 1 scenario_abc) (fm_mount 3))) = []"
  using aggregate_error_stays_empty
    [where evs = "Refetch # cycle 0 scenario_abc @ cycle 1 scenario_abc" and n = 3]
  by blast

end
